theory Spec2Isabelle
  imports Complex_Main "HOL-Library.While_Combinator" "HOL-Library.Word"
begin

unbundle bit_operations_syntax

section \<open>The drawing page of src/src/App.jsx (DrawPage)\<close>

text \<open>
  The drawing page keeps a fabric.js canvas in \<open>fabricRef\<close>, two arrays of scene
  snapshots in the refs \<open>undo\<close> and \<open>redo\<close>, the guard flag \<open>restoring\<close>, and the
  list of accepted panels in the React state \<open>frames\<close>. \<open>loading\<close> lists the
  snapshots handed to \<open>loadFromJSON\<close> whose callback has not run yet, oldest first. JavaScript arrays are lists
  in array order: \<open>push\<close> appends at the end, \<open>pop\<close> takes the last element,
  \<open>shift\<close> removes the first one.
\<close>

subsection \<open>Pixel buffers and the canvas\<close>

text \<open>
  An \<open>ImageData\<close>: \<open>data\<close> holds four bytes (R, G, B, A, each in 0..255) per pixel,
  row by row, so a buffer that \<open>getImageData\<close> returns has
  \<open>length data = 4 * width * height\<close>.
\<close>

record imgdata =
  width :: nat
  height :: nat
  data :: "int list"

type_synonym rgba = "int \<times> int \<times> int \<times> int"

text \<open>A free-drawn stroke, the \<open>fabric.Path\<close> that the pencil brush adds.\<close>

record path =
  ppoints :: "(int \<times> int) list"
  pstroke :: string
  pstrokeWidth :: nat

text \<open>
  What \<open>c.toJSON()\<close> captures and \<open>c.loadFromJSON\<close> puts back: the background
  colour (\<open>None\<close> is \<open>null\<close>), the background image and the objects.
\<close>

record snapshot =
  backgroundColor :: "string option"
  backgroundImage :: "imgdata option"
  objects :: "path list"

record brush =
  bwidth :: nat
  bcolor :: string

record fcanvas =
  content :: snapshot
  isDrawingMode :: bool
  freeDrawingBrush :: brush

record page =
  fabricRef :: "fcanvas option"
  undo :: "snapshot list"
  redo :: "snapshot list"
  restoring :: bool
  loading :: "snapshot list"

subsection \<open>History: push, restore, handleUndo, handleRedo\<close>

definition toJSON :: "fcanvas \<Rightarrow> snapshot" where
  "toJSON c = content c"

text \<open>
  \<open>function push(){ const c=fabricRef.current; if(!c||restoring.current) return;
  redo.current=[]; undo.current.push(c.toJSON());
  if(undo.current.length>30) undo.current.shift(); }\<close>
\<close>

definition push :: "page \<Rightarrow> page" where
  "push p =
     (case fabricRef p of
        None \<Rightarrow> p
      | Some c \<Rightarrow>
          if restoring p then p
          else
            let u = undo p @ [toJSON c]
            in p\<lparr>redo := [], undo := (if length u > 30 then tl u else u)\<rparr>)"

text \<open>
  \<open>function restore(s){ const c=fabricRef.current; if(!c) return;
  restoring.current=true; c.loadFromJSON(s, ()=>{ c.renderAll();
  restoring.current=false; }); }\<close>
  The call raises the flag and starts the load; the flag stays up until the load's
  callback runs.
\<close>

definition restore :: "snapshot \<Rightarrow> page \<Rightarrow> page" where
  "restore s p =
     (case fabricRef p of
        None \<Rightarrow> p
      | Some c \<Rightarrow> p\<lparr>restoring := True, loading := loading p @ [s]\<rparr>)"

text \<open>
  The load at position \<open>k\<close> of those in progress ends: the canvas shows its
  snapshot and the callback \<open>()=>{ c.renderAll(); restoring.current=false; }\<close>
  lowers the flag, whether or not other loads are still in progress. The \<open>push\<close>
  calls that the load's own object events trigger meet the raised flag and
  return. What the canvas shows while a load is in progress is fabric's affair
  and is left as it was. Loads may end in any order.
\<close>

definition loaded :: "nat \<Rightarrow> page \<Rightarrow> page" where
  "loaded k p =
     (if k < length (loading p)
      then p\<lparr>fabricRef := map_option (\<lambda>c. c\<lparr>content := loading p ! k\<rparr>) (fabricRef p),
             restoring := False,
             loading := take k (loading p) @ drop (Suc k) (loading p)\<rparr>
      else p)"

text \<open>Every load in progress ends, oldest first, before anything else happens.\<close>

definition settle :: "page \<Rightarrow> page" where
  "settle p = (loaded 0 ^^ length (loading p)) p"

text \<open>
  \<open>function handleUndo(){ if(undo.current.length<=1) return;
  const cur=undo.current.pop(); if(cur) redo.current.push(cur);
  const prev=undo.current[undo.current.length-1]; if(prev) restore(prev); }\<close>
  A snapshot is an object, hence truthy: the tests \<open>if(cur)\<close> and \<open>if(prev)\<close>
  always pass.
\<close>

definition handleUndo :: "page \<Rightarrow> page" where
  "handleUndo p =
     (if length (undo p) \<le> 1 then p
      else
        let cur = last (undo p);
            p1 = p\<lparr>undo := butlast (undo p), redo := redo p @ [cur]\<rparr>;
            prev = last (undo p1)
        in restore prev p1)"

text \<open>
  \<open>function handleRedo(){ if(!redo.current.length) return;
  const s=redo.current.pop(); if(s){ undo.current.push(s); restore(s); } }\<close>
\<close>

definition handleRedo :: "page \<Rightarrow> page" where
  "handleRedo p =
     (if redo p = [] then p
      else
        let s = last (redo p);
            p1 = p\<lparr>redo := butlast (redo p), undo := undo p @ [s]\<rparr>
        in restore s p1)"

text \<open>
  A committed mutation: fabric changes what the canvas shows to \<open>s\<close> (a finished
  stroke, a modified or removed object, a fill's new background) and fires the
  event whose handler \<open>rec\<close> calls \<open>push()\<close>. Events come from the canvas, so
  without a canvas there is none.
\<close>

definition commit :: "snapshot \<Rightarrow> page \<Rightarrow> page" where
  "commit s p =
     (case fabricRef p of
        None \<Rightarrow> p
      | Some c \<Rightarrow> push (p\<lparr>fabricRef := Some (c\<lparr>content := s\<rparr>)\<rparr>))"

text \<open>An undo, or a redo, whose load ends before anything else happens.\<close>

definition undoAndLoad :: "page \<Rightarrow> page" where
  "undoAndLoad p = settle (handleUndo p)"


text \<open>
  What can happen to the history: a committed mutation, a click on Undo or Redo,
  the end of a load.
\<close>

datatype hop = Commit snapshot | Undo | Redo | Loaded nat

fun hstep :: "page \<Rightarrow> hop \<Rightarrow> page" where
  "hstep p (Commit s) = commit s p"
| "hstep p Undo = handleUndo p"
| "hstep p Redo = handleRedo p"
| "hstep p (Loaded k) = loaded k p"

definition run :: "hop list \<Rightarrow> page \<Rightarrow> page" where
  "run ops p = foldl hstep p ops"

text \<open>What the canvas shows, when there is a canvas.\<close>

definition shown :: "page \<Rightarrow> snapshot option" where
  "shown p = map_option content (fabricRef p)"

text \<open>
  The page once the mount effect has run: \<open>new fabric.Canvas(el, {isDrawingMode:
  true, backgroundColor: '#ffffff', ...})\<close>, empty history, then \<open>push()\<close>. The
  brush is the one \<open>applyBrush()\<close> installs for the initial tool \<open>'brush'\<close>, colour
  \<open>'#000000'\<close> and size 12.
\<close>

definition blank :: snapshot where
  "blank = \<lparr>backgroundColor = Some ''#ffffff'', backgroundImage = None, objects = []\<rparr>"

definition newCanvas :: fcanvas where
  "newCanvas = \<lparr>content = blank, isDrawingMode = True,
                 freeDrawingBrush = \<lparr>bwidth = 12, bcolor = ''#000000''\<rparr>\<rparr>"

definition fresh :: page where
  "fresh = \<lparr>fabricRef = Some newCanvas, undo = [], redo = [], restoring = False,
             loading = []\<rparr>"

definition mounted :: page where
  "mounted = push fresh"

text \<open>Scenes with one stroke, told apart by the stroke's width.\<close>

definition numbered :: "nat \<Rightarrow> snapshot" where
  "numbered i = blank\<lparr>objects := [\<lparr>ppoints = [(0, 0), (1, 1)], pstroke = ''#000000'',
                                     pstrokeWidth = i\<rparr>]\<rparr>"


subsection \<open>The fill colour: hexToRgba\<close>

text \<open>
  A JavaScript string is a \<open>string\<close> here: each \<open>char\<close> stands for the UTF-16 code
  unit of the same number, so the strings covered are those of code units below
  256. In that range \<open>String.prototype.trim\<close> and \<open>parseInt\<close> skip tab, line feed,
  vertical tab, form feed, carriage return, space and no-break space.
\<close>

definition isWhiteSpace :: "char \<Rightarrow> bool" where
  "isWhiteSpace c = (of_char c \<in> {9, 10, 11, 12, 13, 32, 160 :: nat})"

definition trim :: "string \<Rightarrow> string" where
  "trim s = rev (dropWhile isWhiteSpace (rev (dropWhile isWhiteSpace s)))"

definition hexDigit :: "char \<Rightarrow> int option" where
  "hexDigit c =
     (let n = of_char c :: nat in
      if 48 \<le> n \<and> n \<le> 57 then Some (int n - 48)
      else if 97 \<le> n \<and> n \<le> 102 then Some (int n - 87)
      else if 65 \<le> n \<and> n \<le> 70 then Some (int n - 55)
      else None)"

text \<open>
  \<open>parseInt(h, 16)\<close> as ECMAScript defines it: leading white space is skipped, one
  sign is read, a prefix \<open>0x\<close> or \<open>0X\<close> is dropped, and the longest run of
  hexadecimal digits that follows is the number; with no digit there the result is
  \<open>NaN\<close>, here \<open>None\<close>. What comes after the digits is ignored.
\<close>

definition parseInt16 :: "string \<Rightarrow> int option" where
  "parseInt16 s =
     (let s1 = dropWhile isWhiteSpace s;
          sign = (if s1 \<noteq> [] \<and> hd s1 = CHR ''-'' then - 1 else 1 :: int);
          s2 = (if s1 \<noteq> [] \<and> (hd s1 = CHR ''+'' \<or> hd s1 = CHR ''-'') then tl s1 else s1);
          s3 = (if take 2 s2 = ''0x'' \<or> take 2 s2 = ''0X'' then drop 2 s2 else s2);
          z = takeWhile (\<lambda>c. hexDigit c \<noteq> None) s3
      in if z = [] then None
         else Some (sign * foldl (\<lambda>a c. 16 * a + the (hexDigit c)) 0 z))"

text \<open>
  The operators \<open>>>\<close> and \<open>&\<close> work on their operands converted to 32-bit
  integers; \<open>NaN\<close> converts to 0.
\<close>

definition toInt32 :: "int option \<Rightarrow> 32 word" where
  "toInt32 v = (case v of None \<Rightarrow> 0 | Some n \<Rightarrow> word_of_int n)"

text \<open>
  \<open>function hexToRgba(hex){ let h = (hex || '').toString().trim();
  if(!h) return [0,0,0,255]; if(h.startsWith('#')) h = h.slice(1);
  if(h.length===3){ h = h.split('').map(ch=>ch+ch).join(''); }
  if(h.length!==6){ return [0,0,0,255]; } const num = parseInt(h,16);
  return [(num >> 16) & 255, (num >> 8) & 255, num & 255, 255]; }\<close>
\<close>

definition hexToRgba :: "string \<Rightarrow> rgba" where
  "hexToRgba hex =
     (let h = trim hex in
      if h = [] then (0, 0, 0, 255)
      else
        let h1 = (if hd h = CHR ''#'' then tl h else h);
            h2 = (if length h1 = 3 then concat (map (\<lambda>ch. [ch, ch]) h1) else h1)
        in if length h2 \<noteq> 6 then (0, 0, 0, 255)
           else
             let num = toInt32 (parseInt16 h2)
             in (sint (signed_drop_bit 16 num AND 255),
                 sint (signed_drop_bit 8 num AND 255),
                 sint (num AND 255),
                 255))"

text \<open>
  The claims' words: a hex colour is an optional \<open>#\<close> and then three or six
  hexadecimal digits; the body of an input is what \<open>hexToRgba\<close> measures, the
  trimmed string without one leading \<open>#\<close>.
\<close>

definition hexColor :: "string \<Rightarrow> bool" where
  "hexColor s =
     (let b = (if s \<noteq> [] \<and> hd s = CHR ''#'' then tl s else s)
      in (length b = 3 \<or> length b = 6) \<and> list_all (\<lambda>c. hexDigit c \<noteq> None) b)"

definition hexBody :: "string \<Rightarrow> string" where
  "hexBody hex = (let h = trim hex in if h \<noteq> [] \<and> hd h = CHR ''#'' then tl h else h)"

definition doubled :: "string \<Rightarrow> string" where
  "doubled b = concat (map (\<lambda>ch. [ch, ch]) b)"

subsection \<open>The quality gate and the panel collection\<close>

























subsection \<open>The tools and the flood fill\<close>

datatype tool = Brush | Eraser | Fill

text \<open>
  \<open>function applyBrush(){ const c = fabricRef.current; if (!c) return; ...
  if (tool === 'fill') { c.isDrawingMode = false; c.requestRenderAll(); return; }
  const b = new fabric.PencilBrush(c); b.width = Number(size) || 3;
  b.color = (tool === 'eraser') ? '#ffffff' : color;
  c.freeDrawingBrush = b; c.isDrawingMode = true; c.requestRenderAll(); }\<close>
  \<open>tool\<close>, \<open>color\<close> and \<open>size\<close> (here \<open>bsz\<close>) are the React state the call closes
  over; the cursor styling is left out.
\<close>

definition applyBrush :: "tool \<Rightarrow> string \<Rightarrow> nat \<Rightarrow> page \<Rightarrow> page" where
  "applyBrush tool color bsz p =
     (case fabricRef p of
        None \<Rightarrow> p
      | Some c \<Rightarrow>
          if tool = Fill then p\<lparr>fabricRef := Some (c\<lparr>isDrawingMode := False\<rparr>)\<rparr>
          else
            let b = \<lparr>bwidth = (if bsz = 0 then 3 else bsz),
                     bcolor = (if tool = Eraser then ''#ffffff'' else color)\<rparr>
            in p\<lparr>fabricRef := Some (c\<lparr>freeDrawingBrush := b, isDrawingMode := True\<rparr>)\<rparr>)"

text \<open>
  What fabric does when a free-drawn stroke ends, in drawing mode: the pencil brush
  adds a path with the brush's colour and width to the canvas and fires
  \<open>path:created\<close>, whose handler \<open>rec\<close> calls \<open>push()\<close>.
\<close>

definition pathCreated :: "(int \<times> int) list \<Rightarrow> page \<Rightarrow> page" where
  "pathCreated pts p =
     (case fabricRef p of
        None \<Rightarrow> p
      | Some c \<Rightarrow>
          if \<not> isDrawingMode c then p
          else
            let path = \<lparr>ppoints = pts, pstroke = bcolor (freeDrawingBrush c),
                        pstrokeWidth = bwidth (freeDrawingBrush c)\<rparr>
            in commit ((content c)\<lparr>objects := objects (content c) @ [path]\<rparr>) p)"

definition tol :: int where
  "tol = 8"

text \<open>
  \<open>const matches = (i) => { return Math.abs(data[i] - target[0]) <= tol && ... &&
  Math.abs(data[i+3] - target[3]) <= tol; };\<close>
\<close>

definition matches :: "int list \<Rightarrow> rgba \<Rightarrow> nat \<Rightarrow> bool" where
  "matches d target i =
     (case target of (t0, t1, t2, t3) \<Rightarrow>
        \<bar>d ! i - t0\<bar> \<le> tol \<and> \<bar>d ! (i + 1) - t1\<bar> \<le> tol
        \<and> \<bar>d ! (i + 2) - t2\<bar> \<le> tol \<and> \<bar>d ! (i + 3) - t3\<bar> \<le> tol)"

text \<open>
  The state of the fill loop: the array \<open>stack\<close> (its last element is the top),
  the bytes \<open>img.data\<close> being written, and the bitmap \<open>visited\<close>, a
  \<open>Uint8Array(width * height)\<close> of zeros and ones.
\<close>

record fillState =
  stack :: "(int \<times> int) list"
  pixels :: "int list"
  visited :: "bool list"

text \<open>
  One turn of \<open>while(stack.length){ const [x, y] = stack.pop();
  if(x<0 || y<0 || x>=width || y>=height) continue; const i = (y*width + x);
  if(visited[i]) continue; const di = i*4; if(!matches(di)) continue;
  data[di] = fill[0]; data[di+1] = fill[1]; data[di+2] = fill[2]; data[di+3] = fill[3];
  visited[i] = 1; stack.push([x+1,y],[x-1,y],[x,y+1],[x,y-1]); }\<close>
\<close>

definition fillStep :: "nat \<Rightarrow> nat \<Rightarrow> rgba \<Rightarrow> rgba \<Rightarrow> fillState \<Rightarrow> fillState" where
  "fillStep w h target fill s =
     (let (x, y) = last (stack s);
          s1 = s\<lparr>stack := butlast (stack s)\<rparr>
      in if x < 0 \<or> y < 0 \<or> x \<ge> int w \<or> y \<ge> int h then s1
         else
           let i = nat (y * int w + x)
           in if visited s1 ! i then s1
              else
                let di = i * 4
                in if \<not> matches (pixels s1) target di then s1
                   else
                     (case fill of (f0, f1, f2, f3) \<Rightarrow>
                        s1\<lparr>pixels := (pixels s1)[di := f0, di + 1 := f1, di + 2 := f2, di + 3 := f3],
                           visited := (visited s1)[i := True],
                           stack := stack s1 @ [(x + 1, y), (x - 1, y), (x, y + 1), (x, y - 1)]\<rparr>))"

text \<open>The loop; \<open>None\<close> stands for a loop that never ends.\<close>

definition fillLoop :: "nat \<Rightarrow> nat \<Rightarrow> rgba \<Rightarrow> rgba \<Rightarrow> fillState \<Rightarrow> fillState option" where
  "fillLoop w h target fill = while_option (\<lambda>s. stack s \<noteq> []) (fillStep w h target fill)"

text \<open>The state the loop starts from: the seed on the stack, nothing visited.\<close>

definition fillStart :: "imgdata \<Rightarrow> int \<Rightarrow> int \<Rightarrow> fillState" where
  "fillStart img startX startY =
     \<lparr>stack = [(startX, startY)], pixels = data img,
      visited = replicate (width img * height img) False\<rparr>"

text \<open>
  \<open>function floodFillAt(canvas, startX, startY, fillHex)\<close>. \<open>img\<close> is what
  \<open>ctx.getImageData(0, 0, width, height)\<close> returns after \<open>canvas.renderAll()\<close>: the
  canvas as rendered, of the canvas's width and height. The early returns leave
  the page as it is. After the loop the callbacks of \<open>fabric.Image.fromURL\<close> and
  \<open>setBackgroundImage\<close> run: the background colour becomes \<open>null\<close>, the written
  buffer becomes the background image, and \<open>push()\<close> records the scene. The result
  is \<open>None\<close> if the loop never ends.
\<close>

definition floodFillAt :: "page \<Rightarrow> imgdata \<Rightarrow> int \<Rightarrow> int \<Rightarrow> string \<Rightarrow> page option" where
  "floodFillAt p img startX startY fillHex =
     (case fabricRef p of
        None \<Rightarrow> Some p
      | Some canvas \<Rightarrow>
          let w = width img; h = height img
          in if startX < 0 \<or> startY < 0 \<or> startX \<ge> int w \<or> startY \<ge> int h then Some p
             else
               let d = data img;
                   fill = hexToRgba fillHex;
                   idx0 = nat (startY * int w + startX) * 4;
                   target = (d ! idx0, d ! (idx0 + 1), d ! (idx0 + 2), d ! (idx0 + 3))
               in if target = fill then Some p
                  else
                    (case fillLoop w h target fill (fillStart img startX startY) of
                       None \<Rightarrow> None
                     | Some t \<Rightarrow>
                         Some (commit ((content canvas)\<lparr>backgroundColor := None,
                                 backgroundImage := Some (img\<lparr>data := pixels t\<rparr>)\<rparr>) p)))"

text \<open>
  \<open>const onDown = (opt) => { if(toolRef.current !== 'fill') return;
  const p = canvas.getPointer(opt.e);
  floodFillAt(canvas, Math.floor(p.x), Math.floor(p.y), colorRef.current); };\<close>
\<close>

definition onDown :: "tool \<Rightarrow> string \<Rightarrow> page \<Rightarrow> imgdata \<Rightarrow> real \<times> real \<Rightarrow> page option" where
  "onDown toolRef colorRef p img pt =
     (if toolRef \<noteq> Fill then Some p
      else floodFillAt p img \<lfloor>fst pt\<rfloor> \<lfloor>snd pt\<rfloor> colorRef)"

text \<open>
  The pixel that one turn of the loop colours, if it colours one: the index \<open>i\<close>
  of the turn that reaches \<open>data[di] = fill[0]\<close>.
\<close>

definition paints :: "nat \<Rightarrow> nat \<Rightarrow> rgba \<Rightarrow> fillState \<Rightarrow> nat option" where
  "paints w h target s =
     (let (x, y) = last (stack s)
      in if x < 0 \<or> y < 0 \<or> x \<ge> int w \<or> y \<ge> int h then None
         else
           let i = nat (y * int w + x)
           in if visited s ! i then None
              else if \<not> matches (pixels s) target (i * 4) then None
              else Some i)"

subsection \<open>Pixels, neighbours and the region a fill should colour\<close>

text \<open>
  The pixel \<open>(x, y)\<close> of a buffer \<open>w\<close> pixels wide sits at index \<open>y * w + x\<close>, its
  four bytes at four times that index.
\<close>

definition idx :: "nat \<Rightarrow> int \<times> int \<Rightarrow> nat" where
  "idx w q = nat (snd q * int w + fst q)"

definition inb :: "nat \<Rightarrow> nat \<Rightarrow> int \<times> int \<Rightarrow> bool" where
  "inb w h q = (0 \<le> fst q \<and> fst q < int w \<and> 0 \<le> snd q \<and> snd q < int h)"

definition pixelAt :: "int list \<Rightarrow> nat \<Rightarrow> int \<times> int \<Rightarrow> rgba" where
  "pixelAt d w q = (let i = 4 * idx w q in (d ! i, d ! (i + 1), d ! (i + 2), d ! (i + 3)))"

text \<open>Every channel differs from the target's by at most 8.\<close>

definition near :: "rgba \<Rightarrow> rgba \<Rightarrow> bool" where
  "near t c =
     (case t of (t0, t1, t2, t3) \<Rightarrow>
      case c of (c0, c1, c2, c3) \<Rightarrow>
        \<bar>c0 - t0\<bar> \<le> 8 \<and> \<bar>c1 - t1\<bar> \<le> 8 \<and> \<bar>c2 - t2\<bar> \<le> 8 \<and> \<bar>c3 - t3\<bar> \<le> 8)"

definition adjacent :: "int \<times> int \<Rightarrow> int \<times> int \<Rightarrow> bool" where
  "adjacent p q =
     (q = (fst p + 1, snd p) \<or> q = (fst p - 1, snd p)
      \<or> q = (fst p, snd p + 1) \<or> q = (fst p, snd p - 1))"

text \<open>
  The 4-connected region of the seed: the pixels of the buffer, near the target
  colour, that a path of such pixels joins to the seed.
\<close>

inductive_set region :: "nat \<Rightarrow> nat \<Rightarrow> int list \<Rightarrow> rgba \<Rightarrow> int \<times> int \<Rightarrow> (int \<times> int) set"
  for w :: nat and h :: nat and d :: "int list" and target :: rgba and seed :: "int \<times> int"
where
  seed: "inb w h seed \<Longrightarrow> near target (pixelAt d w seed) \<Longrightarrow> seed \<in> region w h d target seed"
| step: "p \<in> region w h d target seed \<Longrightarrow> adjacent p q \<Longrightarrow> inb w h q
         \<Longrightarrow> near target (pixelAt d w q) \<Longrightarrow> q \<in> region w h d target seed"

text \<open>
  What holds of the loop's state at every turn, for the original bytes \<open>d0\<close>:
  the bitmap and the buffer keep their sizes; a visited pixel is in the region;
  an entry of the stack is the seed or a neighbour of a visited pixel; a
  neighbour, in the buffer and near the target, of a visited pixel is visited or
  waits on the stack; so does the seed; and the buffer holds the fill colour at
  the visited pixels and the original bytes elsewhere.
\<close>

definition fillInv ::
  "nat \<Rightarrow> nat \<Rightarrow> int list \<Rightarrow> rgba \<Rightarrow> rgba \<Rightarrow> int \<times> int \<Rightarrow> fillState \<Rightarrow> bool" where
  "fillInv w h d0 target fill seed s =
     (length (visited s) = w * h \<and> length (pixels s) = length d0
      \<and> (\<forall>q. inb w h q \<and> visited s ! idx w q \<longrightarrow> q \<in> region w h d0 target seed)
      \<and> (\<forall>q \<in> set (stack s). q = seed \<or> (\<exists>p. inb w h p \<and> visited s ! idx w p \<and> adjacent p q))
      \<and> (\<forall>p q. inb w h p \<and> visited s ! idx w p \<and> adjacent p q \<and> inb w h q
                \<and> near target (pixelAt d0 w q)
             \<longrightarrow> visited s ! idx w q \<or> q \<in> set (stack s))
      \<and> (visited s ! idx w seed \<or> seed \<in> set (stack s))
      \<and> (\<forall>q. inb w h q \<longrightarrow>
             pixelAt (pixels s) w q = (if visited s ! idx w q then fill else pixelAt d0 w q)))"

text \<open>The loop's measure: four per pixel not yet visited, one per stack entry.\<close>

definition fillMeasure :: "fillState \<Rightarrow> nat" where
  "fillMeasure s = 4 * length (filter Not (visited s)) + length (stack s)"

text \<open>Small buffers: one row of two or three pixels.\<close>

definition twoPixels :: imgdata where
  "twoPixels = \<lparr>width = 2, height = 1, data = [250, 0, 0, 255, 10, 10, 10, 255]\<rparr>"

definition redPair :: imgdata where
  "redPair = \<lparr>width = 2, height = 1, data = [255, 0, 0, 255, 250, 0, 0, 255]\<rparr>"

definition threePixels :: imgdata where
  "threePixels = \<lparr>width = 3, height = 1,
                   data = [255, 255, 255, 255, 250, 250, 250, 255, 0, 0, 0, 255]\<rparr>"

definition whitePixel :: imgdata where
  "whitePixel = \<lparr>width = 1, height = 1, data = [255, 255, 255, 255]\<rparr>"

text \<open>
  The mounted page after a red fill of the one-pixel white canvas, and then a
  stroke drawn with the eraser.
\<close>

definition redPage :: page where
  "redPage = commit (blank\<lparr>backgroundColor := None,
                            backgroundImage := Some (whitePixel\<lparr>data := [255, 0, 0, 255]\<rparr>)\<rparr>) mounted"

definition erased :: page where
  "erased = pathCreated [(0, 0), (0, 0)] (applyBrush Eraser ''#000000'' 12 redPage)"

text \<open>The scene after a red fill at the first pixel of \<open>twoPixels\<close>.\<close>

definition filledTwo :: snapshot where
  "filledTwo = \<lparr>backgroundColor = None,
                 backgroundImage = Some \<lparr>width = 2, height = 1,
                                          data = [255, 0, 0, 255, 10, 10, 10, 255]\<rparr>,
                 objects = []\<rparr>"



section \<open>Properties of the history\<close>

lemma push_stacks:
  "fabricRef p = Some c \<Longrightarrow> \<not> restoring p \<Longrightarrow>
   undo (push p) = (if length (undo p) \<ge> 30 then tl (undo p @ [content c]) else undo p @ [content c])
   \<and> redo (push p) = [] \<and> fabricRef (push p) = fabricRef p \<and> \<not> restoring (push p)"
  by (auto simp: push_def Let_def toJSON_def)

lemma push_sum_le:
  "length (undo p) + length (redo p) \<le> 30 \<Longrightarrow> length (undo (push p)) + length (redo (push p)) \<le> 30"
  by (auto simp: push_def Let_def split: option.splits)

lemma commit_sum_le:
  "length (undo p) + length (redo p) \<le> 30 \<Longrightarrow> length (undo (commit s p)) + length (redo (commit s p)) \<le> 30"
  by (cases "fabricRef p") (simp_all add: commit_def push_sum_le)

lemma restore_stacks [simp]: "undo (restore s p) = undo p" "redo (restore s p) = redo p"
  by (simp_all add: restore_def split: option.splits)

lemma loaded_stacks [simp]: "undo (loaded k p) = undo p" "redo (loaded k p) = redo p"
  by (simp_all add: loaded_def)

lemma handleUndo_sum:
  "length (undo (handleUndo p)) + length (redo (handleUndo p)) = length (undo p) + length (redo p)"
  by (auto simp: handleUndo_def Let_def)

lemma handleRedo_sum:
  "length (undo (handleRedo p)) + length (redo (handleRedo p)) = length (undo p) + length (redo p)"
  by (cases "redo p = []") (auto simp: handleRedo_def Let_def)

lemma hstep_sum_le:
  "length (undo p) + length (redo p) \<le> 30 \<Longrightarrow> length (undo (hstep p a)) + length (redo (hstep p a)) \<le> 30"
  by (cases a) (simp_all add: commit_sum_le handleUndo_sum handleRedo_sum)

lemma run_sum_le:
  "length (undo p) + length (redo p) \<le> 30 \<Longrightarrow> length (undo (run ops p)) + length (redo (run ops p)) \<le> 30"
  unfolding run_def by (induction ops arbitrary: p) (simp_all add: hstep_sum_le)

lemma run_snoc: "run (ops @ [a]) p = hstep (run ops p) a"
  by (simp add: run_def)

lemma commit_stacks:
  "fabricRef p = Some c \<Longrightarrow> \<not> restoring p \<Longrightarrow>
   undo (commit s p) = (if length (undo p) \<ge> 30 then tl (undo p @ [s]) else undo p @ [s])
   \<and> redo (commit s p) = [] \<and> shown (commit s p) = Some s \<and> \<not> restoring (commit s p)"
  by (auto simp: commit_def push_def Let_def toJSON_def shown_def)

lemma tl_drop_snoc: "k < length ys \<Longrightarrow> tl (drop k ys @ [x]) = drop (Suc k) (ys @ [x])"
  by (simp add: drop_Suc tl_drop)

lemma commits_stacks:
  assumes "fabricRef p = Some c" "\<not> restoring p" "length (undo p) \<le> 30"
  shows "undo (run (map Commit xs) p) = drop (length (undo p @ xs) - 30) (undo p @ xs)
       \<and> redo (run (map Commit xs) p) = (if xs = [] then redo p else [])
       \<and> shown (run (map Commit xs) p) = Some (if xs = [] then content c else last xs)
       \<and> \<not> restoring (run (map Commit xs) p)"
proof (induction xs rule: rev_induct)
  case Nil
  then show ?case using assms by (simp add: run_def shown_def)
next
  case (snoc x xs)
  let ?q = "run (map Commit xs) p"
  define ys where "ys = undo p @ xs"
  from snoc have sh: "shown ?q \<noteq> None" and nr: "\<not> restoring ?q" by auto
  then obtain c' where c': "fabricRef ?q = Some c'" by (auto simp: shown_def)
  have r: "run (map Commit (xs @ [x])) p = commit x ?q" by (simp add: run_snoc)
  note cs = commit_stacks [OF c' nr, of x]
  have u: "undo ?q = drop (length ys - 30) ys" using snoc by (simp add: ys_def)
  have "undo (commit x ?q) = drop (length (ys @ [x]) - 30) (ys @ [x])"
  proof (cases "length ys \<ge> 30")
    case True
    then have "length (undo ?q) = 30" using u by simp
    then have "undo (commit x ?q) = tl (drop (length ys - 30) ys @ [x])" using cs u by simp
    also have "\<dots> = drop (Suc (length ys - 30)) (ys @ [x])"
      using True by (intro tl_drop_snoc) simp
    also have "Suc (length ys - 30) = length (ys @ [x]) - 30" using True by simp
    finally show ?thesis .
  next
    case False
    then show ?thesis using cs u by simp
  qed
  then show ?case using cs r by (simp add: ys_def)
qed

lemma handleUndo_floor: "length (undo p) \<le> 1 \<Longrightarrow> handleUndo p = p"
  by (simp add: handleUndo_def)

lemma loaded_pow:
  "loading p = l \<Longrightarrow> l \<noteq> [] \<Longrightarrow>
   (loaded 0 ^^ length l) p
     = p\<lparr>fabricRef := map_option (\<lambda>c. c\<lparr>content := last l\<rparr>) (fabricRef p),
         restoring := False, loading := []\<rparr>"
proof (induction l arbitrary: p)
  case Nil
  then show ?case by simp
next
  case (Cons s rest)
  let ?q = "loaded 0 p"
  have q: "?q = p\<lparr>fabricRef := map_option (\<lambda>c. c\<lparr>content := s\<rparr>) (fabricRef p),
                   restoring := False, loading := rest\<rparr>"
    using Cons.prems(1) by (simp add: loaded_def)
  have f: "(loaded 0 ^^ length (s # rest)) p = (loaded 0 ^^ length rest) ?q"
    by (simp add: funpow_swap1)
  show ?case
  proof (cases "rest = []")
    case True
    then show ?thesis using f q by simp
  next
    case False
    have "loading ?q = rest" using q by simp
    from Cons.IH [OF this False] show ?thesis
      unfolding f using q False by (cases "fabricRef p") simp_all
  qed
qed

lemma settle_idle: "loading p = [] \<Longrightarrow> settle p = p"
  by (simp add: settle_def)

lemma settle_last:
  "loading p \<noteq> [] \<Longrightarrow>
   settle p = p\<lparr>fabricRef := map_option (\<lambda>c. c\<lparr>content := last (loading p)\<rparr>) (fabricRef p),
                restoring := False, loading := []\<rparr>"
  unfolding settle_def by (rule loaded_pow) simp_all

lemma handleUndo_pop:
  assumes "fabricRef p = Some c" "2 \<le> length (undo p)"
  shows "handleUndo p = p\<lparr>undo := butlast (undo p), redo := redo p @ [last (undo p)],
                           restoring := True,
                           loading := loading p @ [last (butlast (undo p))]\<rparr>"
  using assms by (simp add: handleUndo_def Let_def restore_def)

lemma undoAndLoad_pop:
  assumes "fabricRef p = Some c" "2 \<le> length (undo p)"
  shows "undo (undoAndLoad p) = butlast (undo p)
       \<and> redo (undoAndLoad p) = redo p @ [last (undo p)]
       \<and> shown (undoAndLoad p) = Some (last (butlast (undo p)))
       \<and> \<not> restoring (undoAndLoad p)
       \<and> loading (undoAndLoad p) = []"
proof -
  let ?h = "handleUndo p"
  have h: "?h = p\<lparr>undo := butlast (undo p), redo := redo p @ [last (undo p)],
                   restoring := True, loading := loading p @ [last (butlast (undo p))]\<rparr>"
    using assms by (rule handleUndo_pop)
  then have ne: "loading ?h \<noteq> []" and l: "last (loading ?h) = last (butlast (undo p))" by simp_all
  show ?thesis
    unfolding undoAndLoad_def settle_last [OF ne] l using h assms(1) by (simp add: shown_def)
qed

lemma undoAndLoad_floor: "length (undo p) \<le> 1 \<Longrightarrow> loading p = [] \<Longrightarrow> undoAndLoad p = p"
  by (simp add: undoAndLoad_def handleUndo_floor settle_idle)

lemma last_take_nth: "0 < m \<Longrightarrow> m \<le> length xs \<Longrightarrow> last (take m xs) = xs ! (m - 1)"
  by (cases "take m xs = []") (auto simp: last_conv_nth min_def)

lemma undo_iter:
  assumes "fabricRef q = Some c" "content c = last (undo q)" "\<not> restoring q"
  shows "k < length (undo q) \<Longrightarrow>
         undo ((undoAndLoad ^^ k) q) = take (length (undo q) - k) (undo q)
       \<and> redo ((undoAndLoad ^^ k) q) = redo q @ rev (drop (length (undo q) - k) (undo q))
       \<and> shown ((undoAndLoad ^^ k) q) = Some (undo q ! (length (undo q) - 1 - k))
       \<and> \<not> restoring ((undoAndLoad ^^ k) q)
       \<and> (0 < k \<longrightarrow> loading ((undoAndLoad ^^ k) q) = [])"
proof (induction k)
  case 0
  then show ?case using assms by (simp add: shown_def last_conv_nth)
next
  case (Suc k)
  let ?r = "(undoAndLoad ^^ k) q"
  let ?n = "length (undo q)"
  from Suc have ih: "undo ?r = take (?n - k) (undo q)"
    "redo ?r = redo q @ rev (drop (?n - k) (undo q))" "shown ?r \<noteq> None" by auto
  then obtain c' where c': "fabricRef ?r = Some c'" by (auto simp: shown_def)
  have len: "2 \<le> length (undo ?r)" using ih Suc.prems by simp
  note hp = undoAndLoad_pop [OF c' len]
  have b: "butlast (undo ?r) = take (?n - Suc k) (undo q)"
    using ih Suc.prems by (simp add: butlast_take)
  have l: "last (undo ?r) = undo q ! (?n - Suc k)"
    using ih Suc.prems last_take_nth [of "?n - k" "undo q"] by simp
  have "Suc (?n - Suc k) = ?n - k" using Suc.prems by simp
  then have d: "drop (?n - Suc k) (undo q) = (undo q ! (?n - Suc k)) # drop (?n - k) (undo q)"
    using Suc.prems Cons_nth_drop_Suc [of "?n - Suc k" "undo q"] by simp
  have s: "last (take (?n - Suc k) (undo q)) = undo q ! (?n - 1 - Suc k)"
    using Suc.prems last_take_nth [of "?n - Suc k" "undo q"] by simp
  have f: "(undoAndLoad ^^ Suc k) q = undoAndLoad ?r" by simp
  show ?case unfolding f using hp b l d s ih(2) by simp
qed

lemma undoAndLoad_idle:
  "length (undo r) \<le> 1 \<Longrightarrow> loading r = [] \<Longrightarrow> (undoAndLoad ^^ j) r = r"
  by (induction j) (simp_all add: undoAndLoad_floor)

lemma undo_iter_floor:
  assumes "fabricRef q = Some c" "content c = last (undo q)" "\<not> restoring q"
    and "2 \<le> length (undo q)"
  shows "undo ((undoAndLoad ^^ k) q) = take (length (undo q) - min k (length (undo q) - 1)) (undo q)
       \<and> shown ((undoAndLoad ^^ k) q) = Some (undo q ! (length (undo q) - 1 - min k (length (undo q) - 1)))"
proof (cases "k < length (undo q)")
  case True
  then have "min k (length (undo q) - 1) = k" by simp
  then show ?thesis using undo_iter [OF assms(1-3) True] by simp
next
  case False
  let ?m = "length (undo q) - 1"
  have m: "?m < length (undo q)" and m0: "0 < ?m" using assms(4) by simp_all
  note it = undo_iter [OF assms(1-3) m]
  have "length (undo ((undoAndLoad ^^ ?m) q)) \<le> 1" using it assms(4) by simp
  moreover have "loading ((undoAndLoad ^^ ?m) q) = []" using it m0 by blast
  ultimately have idle: "(undoAndLoad ^^ (k - ?m)) ((undoAndLoad ^^ ?m) q) = (undoAndLoad ^^ ?m) q"
    by (rule undoAndLoad_idle)
  have "k = (k - ?m) + ?m" using False by simp
  then have "(undoAndLoad ^^ k) q = (undoAndLoad ^^ (k - ?m)) ((undoAndLoad ^^ ?m) q)"
    by (metis funpow_add o_apply)
  then have "(undoAndLoad ^^ k) q = (undoAndLoad ^^ ?m) q" using idle by simp
  moreover have "min k ?m = ?m" using False by simp
  ultimately show ?thesis using it by simp
qed

lemma mounted_simps:
  "fabricRef mounted = Some newCanvas" "undo mounted = [blank]" "redo mounted = []"
  "\<not> restoring mounted" "loading mounted = []"
  by (simp_all add: mounted_def fresh_def push_def toJSON_def newCanvas_def)

subsection \<open>The cap of the undo stack\<close>

text \<open>
  C2. Commit, undo, redo and the end of a load keep the sum of the two stacks'
  lengths at most 30, so after every sequence of them the undo stack holds at
  most 30 snapshots. Commits keep the 30 most recent snapshots: the one that
  overflows the cap evicts the oldest. After 35 commits on an empty history the
  undo stack is the last 30 of them, and any number of undos, each with its load
  ended, shows one of these, at best the sixth: the oldest five are out of reach.
\<close>

theorem undo_stack_capped:
  "(length (undo p) + length (redo p) \<le> 30 \<longrightarrow> length (undo (run ops p)) \<le> 30)
   \<and> (fabricRef p \<noteq> None \<and> \<not> restoring p \<and> length (undo p) \<le> 30 \<longrightarrow>
        undo (run (map Commit xs) p) = drop (length (undo p @ xs) - 30) (undo p @ xs))
   \<and> (fabricRef p \<noteq> None \<and> \<not> restoring p \<and> undo p = [] \<and> length xs = 35 \<longrightarrow>
        undo (run (map Commit xs) p) = drop 5 xs
        \<and> (\<forall>k. shown ((undoAndLoad ^^ k) (run (map Commit xs) p)) = Some (xs ! (34 - min k 29))))"
proof (intro conjI impI)
  assume "length (undo p) + length (redo p) \<le> 30"
  then show "length (undo (run ops p)) \<le> 30"
    using run_sum_le [of p ops] by simp
next
  assume "fabricRef p \<noteq> None \<and> \<not> restoring p \<and> length (undo p) \<le> 30"
  then show "undo (run (map Commit xs) p) = drop (length (undo p @ xs) - 30) (undo p @ xs)"
    using commits_stacks [of p _ xs] by blast
next
  assume a: "fabricRef p \<noteq> None \<and> \<not> restoring p \<and> undo p = [] \<and> length xs = 35"
  then obtain c where c: "fabricRef p = Some c" by auto
  note cs = commits_stacks [OF c, of xs]
  show "undo (run (map Commit xs) p) = drop 5 xs" using cs a by simp
next
  assume a: "fabricRef p \<noteq> None \<and> \<not> restoring p \<and> undo p = [] \<and> length xs = 35"
  then obtain c where c: "fabricRef p = Some c" by auto
  let ?q = "run (map Commit xs) p"
  note cs = commits_stacks [OF c, of xs]
  have u: "undo ?q = drop 5 xs" and nr: "\<not> restoring ?q" and sh: "shown ?q = Some (last xs)"
    using cs a by auto
  from sh obtain c' where c': "fabricRef ?q = Some c'" "content c' = last xs"
    by (auto simp: shown_def)
  have l: "content c' = last (undo ?q)" using c' u a by simp
  have ne: "2 \<le> length (undo ?q)" using u a by simp
  show "\<forall>k. shown ((undoAndLoad ^^ k) ?q) = Some (xs ! (34 - min k 29))"
  proof
    fix k
    have "shown ((undoAndLoad ^^ k) ?q) = Some (undo ?q ! (length (undo ?q) - 1 - min k (length (undo ?q) - 1)))"
      using undo_iter_floor [OF c'(1) l nr ne, of k] by simp
    also have "\<dots> = Some (drop 5 xs ! (29 - min k 29))" using u a by simp
    also have "\<dots> = Some (xs ! (34 - min k 29))" using a by (simp add: min_def)
    finally show "shown ((undoAndLoad ^^ k) ?q) = Some (xs ! (34 - min k 29))" .
  qed
qed

theorem undo_stack_capped_witness:
  "length (undo (run [Commit (numbered 1), Undo, Commit (numbered 2), Loaded 0, Redo, Undo] mounted)) \<le> 30
   \<and> undo (run (map Commit (map numbered [1..<36])) fresh) = map numbered [6..<36]
   \<and> shown ((undoAndLoad ^^ 40) (run (map Commit (map numbered [1..<36])) fresh)) = Some (numbered 6)"
proof -
  have f: "fabricRef fresh \<noteq> None \<and> \<not> restoring fresh \<and> undo fresh = []
           \<and> length (map numbered [1..<36]) = 35"
    by (simp add: fresh_def)
  have m: "length (undo mounted) + length (redo mounted) \<le> 30"
    by (simp add: mounted_simps)
  have d: "drop 5 (map numbered [1..<36]) = map numbered [6..<36]"
    by (simp add: drop_map)
  have n: "map numbered [1..<36] ! 5 = numbered 6"
    by simp
  show ?thesis
    using undo_stack_capped [of mounted
            "[Commit (numbered 1), Undo, Commit (numbered 2), Loaded 0, Redo, Undo]"
            "map numbered [1..<36]"]
          undo_stack_capped [of fresh "[]" "map numbered [1..<36]"] f m d n
    by (simp del: upt_Suc)
qed



subsection \<open>Redo after undo\<close>








subsection \<open>Undo round trip\<close>

text \<open>
  C4. From a history holding just the initial snapshot \<open>s0\<close>, after N < 30
  committed scenes \<open>xs\<close>, k undos (k \<le> N), each with its load ended, show the
  scene committed k steps earlier, N undos show \<open>s0\<close> again and leave it alone on
  the undo stack; and undo changes nothing when the undo stack has at most one
  entry.
\<close>

theorem undo_round_trip:
  "(fabricRef p = Some c \<and> content c = s0 \<and> undo p = [s0] \<and> \<not> restoring p \<and> length xs < 30 \<longrightarrow>
      (\<forall>k\<le>length xs. shown ((undoAndLoad ^^ k) (run (map Commit xs) p))
                         = Some ((s0 # xs) ! (length xs - k)))
      \<and> shown ((undoAndLoad ^^ length xs) (run (map Commit xs) p)) = Some s0
      \<and> undo ((undoAndLoad ^^ length xs) (run (map Commit xs) p)) = [s0])
   \<and> (length (undo p) \<le> 1 \<longrightarrow> handleUndo p = p)"
proof (intro conjI impI)
  assume a: "fabricRef p = Some c \<and> content c = s0 \<and> undo p = [s0] \<and> \<not> restoring p \<and> length xs < 30"
  let ?q = "run (map Commit xs) p"
  have c: "fabricRef p = Some c" and nr: "\<not> restoring p" and le: "length (undo p) \<le> 30"
    using a by auto
  note cs = commits_stacks [OF c nr le, of xs]
  have u: "undo ?q = s0 # xs" using cs a by simp
  have sh: "shown ?q = Some (last (s0 # xs))" using cs a by simp
  then obtain c' where c': "fabricRef ?q = Some c'" "content c' = last (undo ?q)"
    using u by (auto simp: shown_def)
  have nrq: "\<not> restoring ?q" using cs by simp
  have it: "shown ((undoAndLoad ^^ k) ?q) = Some ((s0 # xs) ! (length xs - k))
            \<and> undo ((undoAndLoad ^^ k) ?q) = take (Suc (length xs) - k) (s0 # xs)"
    if "k \<le> length xs" for k
    using undo_iter [OF c' nrq, of k] that u by simp
  show "\<forall>k\<le>length xs. shown ((undoAndLoad ^^ k) ?q) = Some ((s0 # xs) ! (length xs - k))"
    using it by blast
  show "shown ((undoAndLoad ^^ length xs) ?q) = Some s0"
    using it [of "length xs"] by simp
  show "undo ((undoAndLoad ^^ length xs) ?q) = [s0]"
    using it [of "length xs"] by simp
next
  assume "length (undo p) \<le> 1"
  then show "handleUndo p = p" by (rule handleUndo_floor)
qed

theorem undo_round_trip_witness:
  "shown ((undoAndLoad ^^ 1) (run (map Commit [numbered 1, numbered 2, numbered 3]) mounted))
     = Some (numbered 2)
   \<and> shown ((undoAndLoad ^^ 3) (run (map Commit [numbered 1, numbered 2, numbered 3]) mounted))
     = Some blank
   \<and> undo ((undoAndLoad ^^ 3) (run (map Commit [numbered 1, numbered 2, numbered 3]) mounted))
     = [blank]
   \<and> handleUndo mounted = mounted"
proof -
  have a: "fabricRef mounted = Some newCanvas \<and> content newCanvas = blank
           \<and> undo mounted = [blank] \<and> \<not> restoring mounted
           \<and> length [numbered 1, numbered 2, numbered 3] < 30"
    by (simp add: mounted_simps newCanvas_def)
  have b: "length (undo mounted) \<le> 1" by (simp add: mounted_simps)
  note t = undo_round_trip [of mounted newCanvas blank "[numbered 1, numbered 2, numbered 3]"]
  from t a have "\<forall>k\<le>length [numbered 1, numbered 2, numbered 3].
      shown ((undoAndLoad ^^ k) (run (map Commit [numbered 1, numbered 2, numbered 3]) mounted))
        = Some ((blank # [numbered 1, numbered 2, numbered 3])
                 ! (length [numbered 1, numbered 2, numbered 3] - k))"
    by blast
  then have "shown ((undoAndLoad ^^ 1) (run (map Commit [numbered 1, numbered 2, numbered 3]) mounted))
     = Some ((blank # [numbered 1, numbered 2, numbered 3])
              ! (length [numbered 1, numbered 2, numbered 3] - 1))"
    by (elim allE [where x = "1::nat"]) simp
  then show ?thesis using t a b by (simp add: numeral_3_eq_3)
qed

section \<open>Properties of the fill colour parser\<close>

lemma hexDigit_not_white: "hexDigit c \<noteq> None \<Longrightarrow> \<not> isWhiteSpace c"
  by (auto simp: hexDigit_def isWhiteSpace_def Let_def split: if_splits)

lemma hexDigit_not_hash: "hexDigit c \<noteq> None \<Longrightarrow> c \<noteq> CHR ''#''"
  by (auto simp: hexDigit_def Let_def split: if_splits)

lemma trim_id: "s \<noteq> [] \<Longrightarrow> \<not> isWhiteSpace (hd s) \<Longrightarrow> \<not> isWhiteSpace (last s) \<Longrightarrow> trim s = s"
proof -
  assume s: "s \<noteq> []" and h: "\<not> isWhiteSpace (hd s)" and l: "\<not> isWhiteSpace (last s)"
  from s h have a: "dropWhile isWhiteSpace s = s" by (cases s) simp_all
  from s l have "\<not> isWhiteSpace (hd (rev s))" by (simp add: hd_rev)
  with s have "dropWhile isWhiteSpace (rev s) = rev s" by (cases "rev s") simp_all
  with a show "trim s = s" by (simp add: trim_def)
qed

lemma hexToRgba_alpha: "snd (snd (snd (hexToRgba hex))) = 255"
  by (simp add: hexToRgba_def Let_def)

lemma hexToRgba_body:
  "hexToRgba hex =
     (let h2 = (if length (hexBody hex) = 3 then doubled (hexBody hex) else hexBody hex)
      in if length h2 \<noteq> 6 then (0, 0, 0, 255)
         else let num = toInt32 (parseInt16 h2)
              in (sint (signed_drop_bit 16 num AND 255), sint (signed_drop_bit 8 num AND 255),
                  sint (num AND 255), 255))"
  by (simp add: hexToRgba_def hexBody_def doubled_def Let_def)

lemma length_doubled: "length (doubled b) = 2 * length b"
  by (induction b) (simp_all add: doubled_def)

lemma hexBody_digits:
  assumes "b \<noteq> []" "list_all (\<lambda>c. hexDigit c \<noteq> None) b"
  shows "hexBody b = b" and "hexBody (CHR ''#'' # b) = b"
proof -
  from assms have h: "hexDigit (hd b) \<noteq> None" by (cases b) simp_all
  from assms have l: "hexDigit (last b) \<noteq> None"
    by (simp add: list_all_iff)
  have t: "trim b = b"
    using assms(1) h l by (intro trim_id hexDigit_not_white) simp_all
  have lw: "\<not> isWhiteSpace (last b)" using l by (rule hexDigit_not_white)
  have hw: "\<not> isWhiteSpace (CHR ''#'')" by (simp add: isWhiteSpace_def)
  have t': "trim (CHR ''#'' # b) = CHR ''#'' # b"
    using assms(1) lw hw by (intro trim_id) simp_all
  show "hexBody b = b" using t h hexDigit_not_hash by (auto simp: hexBody_def)
  show "hexBody (CHR ''#'' # b) = b" using t' by (simp add: hexBody_def)
qed

lemma doubled_digits:
  "list_all (\<lambda>c. hexDigit c \<noteq> None) b \<Longrightarrow> list_all (\<lambda>c. hexDigit c \<noteq> None) (doubled b)"
  by (induction b) (simp_all add: doubled_def)

text \<open>
  C10, as stated, fails on a six-character string that is not a hex colour but
  starts with hexadecimal digits: \<open>parseInt\<close> reads the digits and ignores the rest.
\<close>

theorem hexToRgba_counterexample:
  "\<not> hexColor ''12zzzz'' \<and> hexToRgba ''12zzzz'' = (0, 0, 18, 255)"
  by (simp add: hexColor_def hexToRgba_def trim_def isWhiteSpace_def parseInt16_def
      hexDigit_def toInt32_def Let_def)

text \<open>
  C10, amended. For every input the alpha component is 255; three hexadecimal
  digits, with or without the leading \<open>#\<close>, give the same colour as the six digits
  obtained by doubling each; and every input whose body is neither three nor six
  characters long gives opaque black.
\<close>

theorem hexToRgba_total:
  "snd (snd (snd (hexToRgba hex))) = 255
   \<and> (length b = 3 \<and> list_all (\<lambda>c. hexDigit c \<noteq> None) b \<longrightarrow>
        hexToRgba b = hexToRgba (doubled b)
        \<and> hexToRgba (CHR ''#'' # b) = hexToRgba (CHR ''#'' # doubled b))
   \<and> (length (hexBody hex) \<noteq> 3 \<and> length (hexBody hex) \<noteq> 6 \<longrightarrow> hexToRgba hex = (0, 0, 0, 255))"
proof (intro conjI impI)
  show "snd (snd (snd (hexToRgba hex))) = 255" by (rule hexToRgba_alpha)
next
  assume a: "length b = 3 \<and> list_all (\<lambda>c. hexDigit c \<noteq> None) b"
  then have ne: "b \<noteq> []" and d: "list_all (\<lambda>c. hexDigit c \<noteq> None) b" by auto
  have ne2: "doubled b \<noteq> []" using a length_doubled [of b] by auto
  note b1 = hexBody_digits [OF ne d]
  note b2 = hexBody_digits [OF ne2 doubled_digits [OF d]]
  have l: "length (doubled b) = 6" using a by (simp add: length_doubled)
  show "hexToRgba b = hexToRgba (doubled b)"
    using a l b1 b2 by (simp add: hexToRgba_body Let_def)
  show "hexToRgba (CHR ''#'' # b) = hexToRgba (CHR ''#'' # doubled b)"
    using a l b1 b2 by (simp add: hexToRgba_body Let_def)
next
  assume "length (hexBody hex) \<noteq> 3 \<and> length (hexBody hex) \<noteq> 6"
  then show "hexToRgba hex = (0, 0, 0, 255)"
    by (simp add: hexToRgba_body Let_def)
qed

theorem hexToRgba_total_witness:
  "snd (snd (snd (hexToRgba ''#1a2B3c''))) = 255
   \<and> hexToRgba ''f80'' = hexToRgba ''ff8800''
   \<and> hexToRgba ''#f80'' = hexToRgba ''#ff8800''
   \<and> hexToRgba ''#ff8800'' = (255, 136, 0, 255)
   \<and> hexToRgba ''red'' = (0, 0, 0, 255)
   \<and> hexToRgba ''#12345'' = (0, 0, 0, 255)"
proof -
  have a: "length ''f80'' = 3 \<and> list_all (\<lambda>c. hexDigit c \<noteq> None) ''f80''"
    by (simp add: hexDigit_def)
  have d: "doubled ''f80'' = ''ff8800''" by (simp add: doubled_def)
  have b: "length (hexBody ''#12345'') \<noteq> 3 \<and> length (hexBody ''#12345'') \<noteq> 6"
    by (simp add: hexBody_def trim_def isWhiteSpace_def)
  have v: "hexToRgba ''#ff8800'' = (255, 136, 0, 255)"
    by (simp add: hexToRgba_def trim_def isWhiteSpace_def parseInt16_def
      hexDigit_def toInt32_def Let_def)
  have r: "hexToRgba ''red'' = (0, 0, 0, 255)"
    by (simp add: hexToRgba_def trim_def isWhiteSpace_def parseInt16_def
      hexDigit_def toInt32_def Let_def doubled_def)
  show ?thesis
    using hexToRgba_total [where hex = "''#1a2B3c''" and b = "''f80''"]
          hexToRgba_total [where hex = "''#12345''" and b = "''f80''"] a d b v r
    by simp
qed

section \<open>Properties of the quality gate and of the panel collection\<close>















section \<open>Properties of the flood fill\<close>

subsection \<open>The loop's invariant and measure\<close>

lemma idx_less: "inb w h q \<Longrightarrow> idx w q < w * h"
proof -
  assume a: "inb w h q"
  obtain x y where q: "q = (x, y)" by (cases q)
  from a q have b: "0 \<le> x" "x < int w" "0 \<le> y" "y < int h" by (simp_all add: inb_def)
  then have "y + 1 \<le> int h" by simp
  then have "(y + 1) * int w \<le> int h * int w" using b by (intro mult_right_mono) simp_all
  then have "y * int w + x < int h * int w" using b by (simp add: algebra_simps)
  moreover have "0 \<le> y * int w + x" using b by simp
  ultimately have "nat (y * int w + x) < h * w"
    by (metis (no_types) nat_less_iff of_nat_mult)
  then show ?thesis using q by (simp add: idx_def mult.commute)
qed

lemma idx_inj: "inb w h q \<Longrightarrow> inb w h q' \<Longrightarrow> idx w q = idx w q' \<Longrightarrow> q = q'"
proof -
  assume a: "inb w h q" and a': "inb w h q'" and e: "idx w q = idx w q'"
  obtain x y where q: "q = (x, y)" by (cases q)
  obtain x' y' where q': "q' = (x', y')" by (cases q')
  from a q have b: "0 \<le> x" "x < int w" "0 \<le> y" by (simp_all add: inb_def)
  from a' q' have b': "0 \<le> x'" "x' < int w" "0 \<le> y'" by (simp_all add: inb_def)
  have "0 \<le> y * int w + x" "0 \<le> y' * int w + x'" using b b' by simp_all
  then have eq: "y * int w + x = y' * int w + x'" using e q q' by (simp add: idx_def)
  have "(y * int w + x) div int w = y" using b by simp
  moreover have "(y' * int w + x') div int w = y'" using b' by simp
  ultimately have "y = y'" using eq by simp
  then show ?thesis using eq q q' by simp
qed

lemma unvisited_mark:
  "i < length v \<Longrightarrow> \<not> v ! i \<Longrightarrow> Suc (length (filter Not (v[i := True]))) = length (filter Not v)"
proof (induction v arbitrary: i)
  case Nil
  then show ?case by simp
next
  case (Cons a v)
  then show ?case by (cases i) auto
qed


lemma matches_near: "matches d target (idx w q * 4) = near target (pixelAt d w q)"
  by (cases target) (simp add: matches_def near_def pixelAt_def tol_def Let_def mult.commute)

lemma vis_upd:
  assumes "length v = w * h" "inb w h q0" "inb w h q"
  shows "v[idx w q0 := True] ! idx w q = (v ! idx w q \<or> q = q0)"
proof (cases "q = q0")
  case True
  then show ?thesis using assms idx_less [OF assms(2)] by simp
next
  case False
  then have "idx w q \<noteq> idx w q0" using idx_inj [OF assms(3) assms(2)] by blast
  then show ?thesis using False by simp
qed

lemma pix_upd:
  assumes "length d = 4 * w * h" "inb w h q0" "inb w h q"
  shows "pixelAt (d[idx w q0 * 4 := f0, idx w q0 * 4 + 1 := f1, idx w q0 * 4 + 2 := f2,
                    idx w q0 * 4 + 3 := f3]) w q
         = (if q = q0 then (f0, f1, f2, f3) else pixelAt d w q)"
proof (cases "q = q0")
  case True
  have "idx w q0 * 4 + 3 < length d" using idx_less [OF assms(2)] assms(1) by simp
  then show ?thesis using True by (simp add: pixelAt_def Let_def mult.commute)
next
  case False
  then have "idx w q \<noteq> idx w q0" using idx_inj [OF assms(3) assms(2)] by blast
  then have "4 * idx w q + a \<noteq> idx w q0 * 4 + b" if "a < 4" "b < 4" for a b
    using that by presburger
  from this [of 0 0] this [of 0 1] this [of 0 2] this [of 0 3]
       this [of 1 0] this [of 1 1] this [of 1 2] this [of 1 3]
       this [of 2 0] this [of 2 1] this [of 2 2] this [of 2 3]
       this [of 3 0] this [of 3 1] this [of 3 2] this [of 3 3]
  show ?thesis using False by (simp add: pixelAt_def Let_def)
qed

lemma adjacent_set:
  "adjacent (x, y) q \<longleftrightarrow> q \<in> set [(x + 1, y), (x - 1, y), (x, y + 1), (x, y - 1)]"
  by (auto simp: adjacent_def)

lemma fillInvD:
  assumes "fillInv w h d0 target fill seed s"
  shows "length (visited s) = w * h" and "length (pixels s) = length d0"
    and "\<forall>q. inb w h q \<and> visited s ! idx w q \<longrightarrow> q \<in> region w h d0 target seed"
    and "\<forall>q \<in> set (stack s). q = seed \<or> (\<exists>p. inb w h p \<and> visited s ! idx w p \<and> adjacent p q)"
    and "\<forall>p q. inb w h p \<and> visited s ! idx w p \<and> adjacent p q \<and> inb w h q
                \<and> near target (pixelAt d0 w q)
             \<longrightarrow> visited s ! idx w q \<or> q \<in> set (stack s)"
    and "visited s ! idx w seed \<or> seed \<in> set (stack s)"
    and "\<forall>q. inb w h q \<longrightarrow>
             pixelAt (pixels s) w q = (if visited s ! idx w q then fill else pixelAt d0 w q)"
  using assms unfolding fillInv_def by blast+

lemma fillInvI:
  assumes "length (visited s) = w * h" and "length (pixels s) = length d0"
    and "\<forall>q. inb w h q \<and> visited s ! idx w q \<longrightarrow> q \<in> region w h d0 target seed"
    and "\<forall>q \<in> set (stack s). q = seed \<or> (\<exists>p. inb w h p \<and> visited s ! idx w p \<and> adjacent p q)"
    and "\<forall>p q. inb w h p \<and> visited s ! idx w p \<and> adjacent p q \<and> inb w h q
                \<and> near target (pixelAt d0 w q)
             \<longrightarrow> visited s ! idx w q \<or> q \<in> set (stack s)"
    and "visited s ! idx w seed \<or> seed \<in> set (stack s)"
    and "\<forall>q. inb w h q \<longrightarrow>
             pixelAt (pixels s) w q = (if visited s ! idx w q then fill else pixelAt d0 w q)"
  shows "fillInv w h d0 target fill seed s"
  unfolding fillInv_def using assms by blast

lemma pop_inv:
  assumes inv: "fillInv w h d0 target fill seed s"
    and st: "stack s = rest @ [q0]"
    and skip: "\<not> inb w h q0 \<or> visited s ! idx w q0 \<or> \<not> near target (pixelAt d0 w q0)"
    and sb: "inb w h seed" and sn: "near target (pixelAt d0 w seed)"
  shows "fillInv w h d0 target fill seed (s\<lparr>stack := rest\<rparr>)"
proof -
  note i1 = fillInvD(1) [OF inv] and i2 = fillInvD(2) [OF inv] and i3 = fillInvD(3) [OF inv]
    and i4 = fillInvD(4) [OF inv] and i5 = fillInvD(5) [OF inv] and i6 = fillInvD(6) [OF inv]
    and i7 = fillInvD(7) [OF inv]
  have c4: "\<forall>q \<in> set rest. q = seed \<or> (\<exists>p. inb w h p \<and> visited s ! idx w p \<and> adjacent p q)"
    using i4 st by simp
  have c5: "\<forall>p q. inb w h p \<and> visited s ! idx w p \<and> adjacent p q \<and> inb w h q
                \<and> near target (pixelAt d0 w q)
             \<longrightarrow> visited s ! idx w q \<or> q \<in> set rest"
  proof (intro allI impI)
    fix p q
    assume a: "inb w h p \<and> visited s ! idx w p \<and> adjacent p q \<and> inb w h q
                \<and> near target (pixelAt d0 w q)"
    with i5 have "visited s ! idx w q \<or> q \<in> set (stack s)" by blast
    then show "visited s ! idx w q \<or> q \<in> set rest"
      using st skip a by auto
  qed
  have c6: "visited s ! idx w seed \<or> seed \<in> set rest"
    using i6 st skip sb sn by auto
  show ?thesis
    using i1 i2 i3 c4 c5 c6 i7 by (intro fillInvI) simp_all
qed

lemma visit_inv:
  assumes inv: "fillInv w h d0 target fill seed s"
    and st: "stack s = rest @ [(x, y)]"
    and qb: "inb w h (x, y)" and qv: "\<not> visited s ! idx w (x, y)"
    and qn: "near target (pixelAt d0 w (x, y))"
    and wf: "length d0 = 4 * w * h"
    and sb: "inb w h seed"
    and f: "fill = (f0, f1, f2, f3)"
  shows "fillInv w h d0 target fill seed
           (s\<lparr>stack := rest @ [(x + 1, y), (x - 1, y), (x, y + 1), (x, y - 1)],
              pixels := (pixels s)[idx w (x, y) * 4 := f0, idx w (x, y) * 4 + 1 := f1,
                                   idx w (x, y) * 4 + 2 := f2, idx w (x, y) * 4 + 3 := f3],
              visited := (visited s)[idx w (x, y) := True]\<rparr>)"
proof -
  let ?q0 = "(x, y)"
  let ?v = "(visited s)[idx w ?q0 := True]"
  let ?st = "rest @ [(x + 1, y), (x - 1, y), (x, y + 1), (x, y - 1)]"
  let ?px = "(pixels s)[idx w ?q0 * 4 := f0, idx w ?q0 * 4 + 1 := f1,
                        idx w ?q0 * 4 + 2 := f2, idx w ?q0 * 4 + 3 := f3]"
  note i1 = fillInvD(1) [OF inv] and i2 = fillInvD(2) [OF inv] and i3 = fillInvD(3) [OF inv]
    and i4 = fillInvD(4) [OF inv] and i5 = fillInvD(5) [OF inv] and i6 = fillInvD(6) [OF inv]
    and i7 = fillInvD(7) [OF inv]
  have vu: "?v ! idx w q = (visited s ! idx w q \<or> q = ?q0)" if "inb w h q" for q
    using vis_upd [OF i1 qb that] .
  have q0r: "?q0 \<in> region w h d0 target seed"
  proof -
    have "?q0 \<in> set (stack s)" using st by simp
    with i4 have "?q0 = seed \<or> (\<exists>p. inb w h p \<and> visited s ! idx w p \<and> adjacent p ?q0)"
      by blast
    then show ?thesis
    proof
      assume "?q0 = seed"
      then show ?thesis using region.seed [of w h seed target d0] qb qn by simp
    next
      assume "\<exists>p. inb w h p \<and> visited s ! idx w p \<and> adjacent p ?q0"
      then obtain p where p: "inb w h p" "visited s ! idx w p" "adjacent p ?q0" by blast
      with i3 have "p \<in> region w h d0 target seed" by blast
      then show ?thesis using p(3) qb qn by (rule region.step)
    qed
  qed
  have c1: "length ?v = w * h" using i1 by simp
  have c2: "length ?px = length d0" using i2 by simp
  have c3: "\<forall>q. inb w h q \<and> ?v ! idx w q \<longrightarrow> q \<in> region w h d0 target seed"
    using vu i3 q0r by blast
  have c4: "\<forall>q \<in> set ?st. q = seed \<or> (\<exists>p. inb w h p \<and> ?v ! idx w p \<and> adjacent p q)"
  proof
    fix q assume "q \<in> set ?st"
    then have "q \<in> set rest \<or> adjacent ?q0 q" by (auto simp: adjacent_def)
    then show "q = seed \<or> (\<exists>p. inb w h p \<and> ?v ! idx w p \<and> adjacent p q)"
    proof
      assume "q \<in> set rest"
      then have "q \<in> set (stack s)" using st by simp
      with i4 have "q = seed \<or> (\<exists>p. inb w h p \<and> visited s ! idx w p \<and> adjacent p q)" by blast
      then show ?thesis using vu by blast
    next
      assume "adjacent ?q0 q"
      then show ?thesis using vu [OF qb] qb by blast
    qed
  qed
  have c5: "\<forall>p q. inb w h p \<and> ?v ! idx w p \<and> adjacent p q \<and> inb w h q
                \<and> near target (pixelAt d0 w q)
             \<longrightarrow> ?v ! idx w q \<or> q \<in> set ?st"
  proof (intro allI impI)
    fix p q
    assume a: "inb w h p \<and> ?v ! idx w p \<and> adjacent p q \<and> inb w h q
                \<and> near target (pixelAt d0 w q)"
    then have pv: "visited s ! idx w p \<or> p = ?q0" using vu by blast
    show "?v ! idx w q \<or> q \<in> set ?st"
    proof (cases "p = ?q0")
      case True
      then have "q \<in> set [(x + 1, y), (x - 1, y), (x, y + 1), (x, y - 1)]"
        using a adjacent_set [of x y q] by simp
      then have "q \<in> set ?st" by auto
      then show ?thesis by (rule disjI2)
    next
      case False
      then have "visited s ! idx w p" using pv by simp
      with i5 a have "visited s ! idx w q \<or> q \<in> set (stack s)" by blast
      then have "visited s ! idx w q \<or> q \<in> set rest \<or> q = ?q0" using st by auto
      then show ?thesis using vu a by auto
    qed
  qed
  have c6: "?v ! idx w seed \<or> seed \<in> set ?st"
  proof -
    from i6 have "visited s ! idx w seed \<or> seed \<in> set rest \<or> seed = ?q0" using st by auto
    then show ?thesis using vu [OF sb] by auto
  qed
  have c7: "\<forall>q. inb w h q \<longrightarrow>
             pixelAt ?px w q = (if ?v ! idx w q then fill else pixelAt d0 w q)"
  proof (intro allI impI)
    fix q assume qb': "inb w h q"
    have l: "length (pixels s) = 4 * w * h" using i2 wf by simp
    have "pixelAt ?px w q = (if q = ?q0 then (f0, f1, f2, f3) else pixelAt (pixels s) w q)"
      using pix_upd [OF l qb qb'] .
    moreover have "pixelAt (pixels s) w q = (if visited s ! idx w q then fill else pixelAt d0 w q)"
      using i7 qb' by blast
    moreover note vu [OF qb'] f qv
    ultimately show "pixelAt ?px w q = (if ?v ! idx w q then fill else pixelAt d0 w q)"
      by (cases "q = ?q0") simp_all
  qed
  show ?thesis
    using c1 c2 c3 c4 c5 c6 c7 by (intro fillInvI) simp_all
qed

lemma fillStep_cases:
  assumes "stack s = rest @ [(x, y)]"
  shows "fillStep w h target (f0, f1, f2, f3) s =
     (if \<not> inb w h (x, y) \<or> visited s ! idx w (x, y)
         \<or> \<not> matches (pixels s) target (idx w (x, y) * 4)
      then s\<lparr>stack := rest\<rparr>
      else s\<lparr>stack := rest @ [(x + 1, y), (x - 1, y), (x, y + 1), (x, y - 1)],
             pixels := (pixels s)[idx w (x, y) * 4 := f0, idx w (x, y) * 4 + 1 := f1,
                                  idx w (x, y) * 4 + 2 := f2, idx w (x, y) * 4 + 3 := f3],
             visited := (visited s)[idx w (x, y) := True]\<rparr>)"
  using assms by (auto simp: fillStep_def Let_def inb_def idx_def)

lemma paints_cases:
  assumes "stack s = rest @ [(x, y)]"
  shows "paints w h target s =
     (if \<not> inb w h (x, y) \<or> visited s ! idx w (x, y)
         \<or> \<not> matches (pixels s) target (idx w (x, y) * 4)
      then None else Some (idx w (x, y)))"
  using assms by (auto simp: paints_def Let_def inb_def idx_def)

lemma near_refl: "near t t"
  by (cases t) (simp add: near_def)

lemma fillStep_inv:
  assumes inv: "fillInv w h d0 target fill seed s"
    and ne: "stack s \<noteq> []"
    and wf: "length d0 = 4 * w * h"
    and sb: "inb w h seed" and sn: "near target (pixelAt d0 w seed)"
  shows "fillInv w h d0 target fill seed (fillStep w h target fill s)"
proof -
  obtain f0 f1 f2 f3 where f: "fill = (f0, f1, f2, f3)" by (cases fill)
  from ne obtain rest q0 where "stack s = rest @ [q0]" by (cases "stack s" rule: rev_cases) auto
  then obtain x y where st: "stack s = rest @ [(x, y)]" by (cases q0) auto
  note fc = fillStep_cases [OF st, of w h target f0 f1 f2 f3]
  show ?thesis
  proof (cases "\<not> inb w h (x, y) \<or> visited s ! idx w (x, y)
         \<or> \<not> matches (pixels s) target (idx w (x, y) * 4)")
    case True
    have "\<not> inb w h (x, y) \<or> visited s ! idx w (x, y) \<or> \<not> near target (pixelAt d0 w (x, y))"
    proof (cases "inb w h (x, y) \<and> \<not> visited s ! idx w (x, y)")
      case False
      then show ?thesis by blast
    next
      case b: True
      then have "\<not> near target (pixelAt (pixels s) w (x, y))"
        using True matches_near [of "pixels s" target w "(x, y)"] by simp
      moreover have "pixelAt (pixels s) w (x, y) = pixelAt d0 w (x, y)"
        using fillInvD(7) [OF inv] b by simp
      ultimately show ?thesis by simp
    qed
    from pop_inv [OF inv st this sb sn] show ?thesis using fc True f by simp
  next
    case False
    then have qb: "inb w h (x, y)" and qv: "\<not> visited s ! idx w (x, y)"
      and m: "matches (pixels s) target (idx w (x, y) * 4)" by auto
    have "pixelAt (pixels s) w (x, y) = pixelAt d0 w (x, y)"
      using fillInvD(7) [OF inv] qb qv by simp
    then have qn: "near target (pixelAt d0 w (x, y))"
      using m matches_near [of "pixels s" target w "(x, y)"] by simp
    from visit_inv [OF inv st qb qv qn wf sb f] show ?thesis using fc False f by simp
  qed
qed

lemma fillStep_measure:
  assumes len: "length (visited s) = w * h" and ne: "stack s \<noteq> []"
  shows "length (visited (fillStep w h target fill s)) = w * h
       \<and> Suc (fillMeasure (fillStep w h target fill s)) = fillMeasure s"
proof -
  obtain f0 f1 f2 f3 where f: "fill = (f0, f1, f2, f3)" by (cases fill)
  from ne obtain rest q0 where "stack s = rest @ [q0]" by (cases "stack s" rule: rev_cases) auto
  then obtain x y where st: "stack s = rest @ [(x, y)]" by (cases q0) auto
  note fc = fillStep_cases [OF st, of w h target f0 f1 f2 f3]
  show ?thesis
  proof (cases "\<not> inb w h (x, y) \<or> visited s ! idx w (x, y)
         \<or> \<not> matches (pixels s) target (idx w (x, y) * 4)")
    case True
    then show ?thesis using fc f len st by (simp add: fillMeasure_def)
  next
    case False
    then have qb: "inb w h (x, y)" and qv: "\<not> visited s ! idx w (x, y)" by auto
    have "idx w (x, y) < length (visited s)" using idx_less [OF qb] len by simp
    from unvisited_mark [OF this qv]
    show ?thesis using fc f len st False by (simp add: fillMeasure_def)
  qed
qed

lemma fillLoop_runs:
  assumes "length (visited s) = w * h"
  shows "\<exists>k. fillLoop w h target fill s = Some ((fillStep w h target fill ^^ k) s)
           \<and> stack ((fillStep w h target fill ^^ k) s) = []
           \<and> length (visited ((fillStep w h target fill ^^ k) s)) = w * h
           \<and> fillMeasure s = k + fillMeasure ((fillStep w h target fill ^^ k) s)"
  using assms
proof (induction "fillMeasure s" arbitrary: s rule: less_induct)
  case less
  let ?c = "fillStep w h target fill"
  show ?case
  proof (cases "stack s = []")
    case True
    then have "fillLoop w h target fill s = Some s"
      by (simp add: fillLoop_def while_option_unfold)
    then show ?thesis using True less.prems by (intro exI [of _ 0]) simp
  next
    case False
    note m = fillStep_measure [OF less.prems False, of target fill]
    then have "fillMeasure (?c s) < fillMeasure s" by simp
    from less.hyps [OF this] m obtain k where
      k: "fillLoop w h target fill (?c s) = Some ((?c ^^ k) (?c s))"
         "stack ((?c ^^ k) (?c s)) = []"
         "length (visited ((?c ^^ k) (?c s))) = w * h"
         "fillMeasure (?c s) = k + fillMeasure ((?c ^^ k) (?c s))"
      by blast
    have u: "fillLoop w h target fill s = fillLoop w h target fill (?c s)"
      using False by (simp add: fillLoop_def while_option_unfold [of _ _ s])
    have p: "(?c ^^ Suc k) s = (?c ^^ k) (?c s)" by (simp add: funpow_swap1)
    show ?thesis
      using k m u unfolding p [symmetric] by (intro exI [of _ "Suc k"]) simp
  qed
qed

lemma paints_unvisited: "paints w h target s = Some i \<Longrightarrow> \<not> visited s ! i"
  by (auto simp: paints_def Let_def split: prod.splits if_splits)

lemma paints_marks:
  assumes "length (visited s) = w * h" "paints w h target s = Some i"
  shows "visited (fillStep w h target fill s) ! i"
proof -
  obtain x y where l: "last (stack s) = (x, y)" by (cases "last (stack s)")
  from assms(2) l have b: "inb w h (x, y)" and i: "i = idx w (x, y)"
    by (auto simp: paints_def Let_def inb_def idx_def split: if_splits)
  have "i < length (visited s)" using idx_less [OF b] i assms(1) by simp
  then show ?thesis using assms(2) l i
    by (cases fill) (auto simp: paints_def fillStep_def Let_def idx_def split: if_splits)
qed

lemma nth_mark: "v ! i \<Longrightarrow> (v[j := True]) ! i"
  by (cases "i = j"; cases "j < length v") (simp_all add: list_update_beyond not_less)

lemma visited_mono: "visited s ! i \<Longrightarrow> visited (fillStep w h target fill s) ! i"
  by (cases fill) (auto simp: fillStep_def Let_def nth_mark split: prod.splits)

lemma visited_length: "length (visited (fillStep w h target fill s)) = length (visited s)"
  by (cases fill) (auto simp: fillStep_def Let_def split: prod.splits)

lemma visited_length_pow:
  "length (visited ((fillStep w h target fill ^^ n) s)) = length (visited s)"
  by (induction n) (simp_all add: visited_length)

lemma visited_mono_pow:
  "visited s ! i \<Longrightarrow> visited ((fillStep w h target fill ^^ n) s) ! i"
  by (induction n) (simp_all add: visited_mono)

lemma paints_once:
  assumes len: "length (visited s) = w * h" and ab: "a < b"
    and pa: "paints w h target ((fillStep w h target fill ^^ a) s) = Some i"
  shows "paints w h target ((fillStep w h target fill ^^ b) s) \<noteq> Some i"
proof -
  let ?c = "fillStep w h target fill"
  have "length (visited ((?c ^^ a) s)) = w * h" using len by (simp add: visited_length_pow)
  from paints_marks [OF this pa] have v: "visited ((?c ^^ Suc a) s) ! i" by simp
  from ab obtain n where b: "b = n + Suc a" by (metis add.commute less_iff_Suc_add add_Suc_right)
  have "(?c ^^ b) s = (?c ^^ n) ((?c ^^ Suc a) s)" unfolding b by (simp only: funpow_add o_apply)
  then have "visited ((?c ^^ b) s) ! i" using visited_mono_pow [OF v] by simp
  then show ?thesis using paints_unvisited by blast
qed

lemma fillStep_writes:
  "pixels (fillStep w h target (f0, f1, f2, f3) s) =
     (case paints w h target s of
        None \<Rightarrow> pixels s
      | Some i \<Rightarrow> (pixels s)[i * 4 := f0, i * 4 + 1 := f1, i * 4 + 2 := f2, i * 4 + 3 := f3])"
  by (auto simp: fillStep_def paints_def Let_def split: prod.splits)

lemma fillStart_measure: "fillMeasure (fillStart img x y) = 4 * (width img * height img) + 1"
  by (simp add: fillMeasure_def fillStart_def)

lemma filter_Not_count: "length (filter Not v) + length (filter (\<lambda>b. b) v) = length v"
  using sum_length_filter_compl [of "\<lambda>b. b" v] by (simp add: add.commute)

lemma commit_shown: "fabricRef p = Some c \<Longrightarrow> shown (commit s p) = Some s"
  by (simp add: commit_def push_def shown_def Let_def)

lemma target_pixelAt:
  "(d ! (nat (y * int w + x) * 4), d ! (nat (y * int w + x) * 4 + 1),
    d ! (nat (y * int w + x) * 4 + 2), d ! (nat (y * int w + x) * 4 + 3)) = pixelAt d w (x, y)"
  by (simp add: pixelAt_def idx_def Let_def mult.commute)

lemma floodFillAt_cases:
  "floodFillAt p img x y hex =
     (case fabricRef p of
        None \<Rightarrow> Some p
      | Some c \<Rightarrow>
          if \<not> inb (width img) (height img) (x, y) then Some p
          else if pixelAt (data img) (width img) (x, y) = hexToRgba hex then Some p
          else
            (case fillLoop (width img) (height img) (pixelAt (data img) (width img) (x, y))
                    (hexToRgba hex) (fillStart img x y) of
               None \<Rightarrow> None
             | Some t \<Rightarrow>
                 Some (commit ((content c)\<lparr>backgroundColor := None,
                         backgroundImage := Some (img\<lparr>data := pixels t\<rparr>)\<rparr>) p)))"
  unfolding floodFillAt_def Let_def target_pixelAt
  by (auto simp: inb_def split: option.splits)

subsection \<open>Termination of the fill loop\<close>

text \<open>
  C6. On every buffer, from every seed and for every target and fill colour, the
  loop ends: it stops after k turns with an empty stack, where k is four times the
  number of pixels marked in the bitmap plus one, hence at most 4 * width * height
  + 1; and no two turns colour the same pixel. So \<open>floodFillAt\<close> returns on every
  page, buffer, seed and colour.
\<close>

theorem fill_terminates:
  "(\<exists>k t. fillLoop (width img) (height img) target fill (fillStart img x y) = Some t
     \<and> t = (fillStep (width img) (height img) target fill ^^ k) (fillStart img x y)
     \<and> stack t = []
     \<and> k = 4 * length (filter (\<lambda>b. b) (visited t)) + 1
     \<and> k \<le> 4 * (width img * height img) + 1
     \<and> (\<forall>a b i. a < b \<and> b < k
           \<and> paints (width img) (height img) target
                ((fillStep (width img) (height img) target fill ^^ a) (fillStart img x y)) = Some i
         \<longrightarrow> paints (width img) (height img) target
                ((fillStep (width img) (height img) target fill ^^ b) (fillStart img x y)) \<noteq> Some i))
   \<and> (\<exists>p'. floodFillAt p img x y hex = Some p')"
proof
  let ?w = "width img" and ?h = "height img"
  let ?c = "fillStep ?w ?h target fill"
  let ?s = "fillStart img x y"
  have len: "length (visited ?s) = ?w * ?h" by (simp add: fillStart_def)
  from fillLoop_runs [OF len, of target fill] obtain k where
    k: "fillLoop ?w ?h target fill ?s = Some ((?c ^^ k) ?s)"
       "stack ((?c ^^ k) ?s) = []"
       "length (visited ((?c ^^ k) ?s)) = ?w * ?h"
       "fillMeasure ?s = k + fillMeasure ((?c ^^ k) ?s)"
    by blast
  let ?t = "(?c ^^ k) ?s"
  have m: "fillMeasure ?t = 4 * length (filter Not (visited ?t))"
    using k(2) by (simp add: fillMeasure_def)
  have c: "length (filter Not (visited ?t)) + length (filter (\<lambda>b. b) (visited ?t)) = ?w * ?h"
    using filter_Not_count [of "visited ?t"] k(3) by simp
  have e: "k = 4 * length (filter (\<lambda>b. b) (visited ?t)) + 1"
    using k(4) m c fillStart_measure [of img x y] by simp
  have b: "k \<le> 4 * (?w * ?h) + 1" using e c by simp
  have o: "\<forall>a b i. a < b \<and> b < k \<and> paints ?w ?h target ((?c ^^ a) ?s) = Some i
         \<longrightarrow> paints ?w ?h target ((?c ^^ b) ?s) \<noteq> Some i"
    using paints_once [OF len] by blast
  show "\<exists>k t. fillLoop ?w ?h target fill ?s = Some t \<and> t = (?c ^^ k) ?s \<and> stack t = []
     \<and> k = 4 * length (filter (\<lambda>b. b) (visited t)) + 1 \<and> k \<le> 4 * (?w * ?h) + 1
     \<and> (\<forall>a b i. a < b \<and> b < k \<and> paints ?w ?h target ((?c ^^ a) ?s) = Some i
         \<longrightarrow> paints ?w ?h target ((?c ^^ b) ?s) \<noteq> Some i)"
    using k(1) k(2) e b o by blast
next
  let ?w = "width img" and ?h = "height img"
  have len: "length (visited (fillStart img x y)) = ?w * ?h" by (simp add: fillStart_def)
  from fillLoop_runs [OF len, of "pixelAt (data img) ?w (x, y)" "hexToRgba hex"]
  obtain t where "fillLoop ?w ?h (pixelAt (data img) ?w (x, y)) (hexToRgba hex)
                    (fillStart img x y) = Some t"
    by blast
  then show "\<exists>p'. floodFillAt p img x y hex = Some p'"
    by (simp add: floodFillAt_cases split: option.splits)
qed

theorem fill_terminates_witness:
  "fillLoop 2 1 (250, 0, 0, 255) (255, 0, 0, 255) (fillStart twoPixels 0 0)
     = Some \<lparr>stack = [], pixels = [255, 0, 0, 255, 10, 10, 10, 255], visited = [True, False]\<rparr>
   \<and> (fillStep 2 1 (250, 0, 0, 255) (255, 0, 0, 255) ^^ 5) (fillStart twoPixels 0 0)
     = \<lparr>stack = [], pixels = [255, 0, 0, 255, 10, 10, 10, 255], visited = [True, False]\<rparr>
   \<and> (5 :: nat) \<le> 4 * (2 * 1) + 1
   \<and> floodFillAt mounted twoPixels 0 0 ''#ff0000'' \<noteq> None"
proof -
  let ?T = "\<lparr>stack = [], pixels = [255, 0, 0, 255, 10, 10, 10, 255], visited = [True, False]\<rparr>"
  have e: "fillLoop 2 1 (250, 0, 0, 255) (255, 0, 0, 255) (fillStart twoPixels 0 0) = Some ?T"
    by (simp add: fillLoop_def while_option_unfold fillStart_def twoPixels_def fillStep_def
        matches_def tol_def Let_def numeral_2_eq_2)
  have wh: "width twoPixels = 2" "height twoPixels = 1" by (simp_all add: twoPixels_def)
  note ft = fill_terminates [of twoPixels "(250, 0, 0, 255)" "(255, 0, 0, 255)" 0 0 mounted
      "''#ff0000''"]
  then have r: "floodFillAt mounted twoPixels 0 0 ''#ff0000'' \<noteq> None" by auto
  from ft obtain k t where
    kt: "fillLoop 2 1 (250, 0, 0, 255) (255, 0, 0, 255) (fillStart twoPixels 0 0) = Some t"
        "t = (fillStep 2 1 (250, 0, 0, 255) (255, 0, 0, 255) ^^ k) (fillStart twoPixels 0 0)"
        "k = 4 * length (filter (\<lambda>b. b) (visited t)) + 1"
    unfolding wh by blast
  from kt(1) e have t: "t = ?T" by simp
  then have "k = 5" using kt(3) by simp
  then show ?thesis using e kt(2) t r by simp
qed

subsection \<open>What the fill colours\<close>

lemma region_near:
  "q \<in> region w h d target seed \<Longrightarrow> inb w h q \<and> near target (pixelAt d w q)"
  by (induction rule: region.induct) simp_all

lemma fillStart_inv:
  assumes sb: "inb (width img) (height img) (x, y)"
  shows "fillInv (width img) (height img) (data img) target fill (x, y) (fillStart img x y)"
proof (rule fillInvI)
  let ?w = "width img" and ?h = "height img"
  have nv: "\<not> visited (fillStart img x y) ! idx ?w q" if "inb ?w ?h q" for q
    using idx_less [OF that] by (simp add: fillStart_def)
  show "length (visited (fillStart img x y)) = ?w * ?h" by (simp add: fillStart_def)
  show "length (pixels (fillStart img x y)) = length (data img)" by (simp add: fillStart_def)
  show "\<forall>q. inb ?w ?h q \<and> visited (fillStart img x y) ! idx ?w q
          \<longrightarrow> q \<in> region ?w ?h (data img) target (x, y)"
    using nv by blast
  show "\<forall>q\<in>set (stack (fillStart img x y)). q = (x, y)
          \<or> (\<exists>p. inb ?w ?h p \<and> visited (fillStart img x y) ! idx ?w p \<and> adjacent p q)"
    by (simp add: fillStart_def)
  show "\<forall>p q. inb ?w ?h p \<and> visited (fillStart img x y) ! idx ?w p \<and> adjacent p q
          \<and> inb ?w ?h q \<and> near target (pixelAt (data img) ?w q)
          \<longrightarrow> visited (fillStart img x y) ! idx ?w q \<or> q \<in> set (stack (fillStart img x y))"
    using nv by blast
  show "visited (fillStart img x y) ! idx ?w (x, y) \<or> (x, y) \<in> set (stack (fillStart img x y))"
    by (simp add: fillStart_def)
  show "\<forall>q. inb ?w ?h q \<longrightarrow> pixelAt (pixels (fillStart img x y)) ?w q
          = (if visited (fillStart img x y) ! idx ?w q then fill else pixelAt (data img) ?w q)"
    using nv by (simp add: fillStart_def)
qed

lemma fill_result:
  assumes wf: "length (data img) = 4 * width img * height img"
    and sb: "inb (width img) (height img) (x, y)"
    and sn: "near target (pixelAt (data img) (width img) (x, y))"
  shows "\<exists>t. fillLoop (width img) (height img) target fill (fillStart img x y) = Some t
           \<and> length (pixels t) = length (data img)
           \<and> (\<forall>q. inb (width img) (height img) q \<longrightarrow>
                 pixelAt (pixels t) (width img) q =
                   (if q \<in> region (width img) (height img) (data img) target (x, y)
                    then fill else pixelAt (data img) (width img) q))"
proof -
  let ?w = "width img" and ?h = "height img" and ?d = "data img"
  let ?R = "region ?w ?h ?d target (x, y)"
  let ?P = "fillInv ?w ?h ?d target fill (x, y)"
  have len: "length (visited (fillStart img x y)) = ?w * ?h" by (simp add: fillStart_def)
  from fillLoop_runs [OF len, of target fill] obtain t where
    t: "fillLoop ?w ?h target fill (fillStart img x y) = Some t" and e: "stack t = []"
    by blast
  have inv: "?P t"
  proof (rule while_option_rule [where P = ?P])
    show "while_option (\<lambda>s. stack s \<noteq> []) (fillStep ?w ?h target fill) (fillStart img x y) = Some t"
      using t by (simp add: fillLoop_def)
    show "?P (fillStart img x y)" using sb by (rule fillStart_inv)
    show "?P (fillStep ?w ?h target fill s)" if "?P s" "stack s \<noteq> []" for s
      using that wf sb sn by (rule fillStep_inv)
  qed
  note i3 = fillInvD(3) [OF inv] and i5 = fillInvD(5) [OF inv] and i6 = fillInvD(6) [OF inv]
    and i7 = fillInvD(7) [OF inv]
  have sub: "visited t ! idx ?w q" if "q \<in> ?R" for q
    using that
  proof (induction rule: region.induct)
    case seed
    then show ?case using i6 e by simp
  next
    case (step p q)
    have "inb ?w ?h p" using region_near [OF step.hyps(1)] by simp
    with step i5 have "visited t ! idx ?w q \<or> q \<in> set (stack t)" by blast
    then show ?case using e by simp
  qed
  have eq: "visited t ! idx ?w q \<longleftrightarrow> q \<in> ?R" if "inb ?w ?h q" for q
    using that sub i3 by blast
  have "\<forall>q. inb ?w ?h q \<longrightarrow>
          pixelAt (pixels t) ?w q = (if q \<in> ?R then fill else pixelAt ?d ?w q)"
  proof (intro allI impI)
    fix q assume b: "inb ?w ?h q"
    with i7 have "pixelAt (pixels t) ?w q = (if visited t ! idx ?w q then fill else pixelAt ?d ?w q)"
      by blast
    then show "pixelAt (pixels t) ?w q = (if q \<in> ?R then fill else pixelAt ?d ?w q)"
      using eq [OF b] by simp
  qed
  then show ?thesis using t fillInvD(2) [OF inv] by blast
qed

lemma red: "hexToRgba ''#ff0000'' = (255, 0, 0, 255)"
  by (simp add: hexToRgba_def trim_def isWhiteSpace_def parseInt16_def hexDigit_def
      toInt32_def Let_def)

text \<open>
  C1, as stated, fails where the seed already has the fill colour: the fill returns
  before its loop, and a neighbour within tolerance of the seed, which belongs to
  the region, keeps a colour that is not the fill colour; nothing is committed.
\<close>

theorem flood_fill_region_counterexample:
  "inb 2 1 (0, 0)
   \<and> (1, 0) \<in> region 2 1 (data redPair) (pixelAt (data redPair) 2 (0, 0)) (0, 0)
   \<and> pixelAt (data redPair) 2 (1, 0) \<noteq> hexToRgba ''#ff0000''
   \<and> floodFillAt mounted redPair 0 0 ''#ff0000'' = Some mounted
   \<and> shown mounted = Some blank"
proof -
  have t: "pixelAt (data redPair) 2 (0, 0) = (255, 0, 0, 255)"
    by (simp add: pixelAt_def redPair_def idx_def Let_def)
  have q: "pixelAt (data redPair) 2 (1, 0) = (250, 0, 0, 255)"
    by (simp add: pixelAt_def redPair_def idx_def Let_def)
  have b0: "inb 2 1 (0, 0)" and b1: "inb 2 1 (1, 0)" by (simp_all add: inb_def)
  have r0: "(0, 0) \<in> region 2 1 (data redPair) (255, 0, 0, 255) (0, 0)"
    using b0 t by (intro region.seed) (simp_all add: near_def)
  have r: "(1, 0) \<in> region 2 1 (data redPair) (255, 0, 0, 255) (0, 0)"
    by (rule region.step [OF r0]) (simp_all add: adjacent_def inb_def q near_def)
  have wh: "width redPair = 2" "height redPair = 1" by (simp_all add: redPair_def)
  have f: "floodFillAt mounted redPair 0 0 ''#ff0000'' = Some mounted"
    using b0 t by (simp add: floodFillAt_cases mounted_simps wh red)
  show ?thesis using b0 r q f t by (simp add: red shown_def mounted_simps newCanvas_def)
qed

text \<open>
  C1, amended. For every buffer of the right length, every seed inside it and
  every fill colour other than the colour sampled at the seed, the fill returns a
  page whose background image has the size of the buffer and, at every pixel,
  the fill colour if the pixel is in the 4-connected region of the seed (the
  pixels within 8 of the sampled colour on every channel) and the original
  colour otherwise.
\<close>

theorem flood_fill_region:
  "length (data img) = 4 * width img * height img \<and> inb (width img) (height img) (x, y)
   \<and> fabricRef p = Some c \<and> pixelAt (data img) (width img) (x, y) \<noteq> hexToRgba hex \<longrightarrow>
   (\<exists>p' img'. floodFillAt p img x y hex = Some p'
      \<and> shown p' = Some ((content c)\<lparr>backgroundColor := None, backgroundImage := Some img'\<rparr>)
      \<and> width img' = width img \<and> height img' = height img
      \<and> length (data img') = length (data img)
      \<and> (\<forall>q. inb (width img) (height img) q \<longrightarrow>
            pixelAt (data img') (width img) q =
              (if q \<in> region (width img) (height img) (data img)
                         (pixelAt (data img) (width img) (x, y)) (x, y)
               then hexToRgba hex else pixelAt (data img) (width img) q)))"
proof
  let ?w = "width img" and ?h = "height img" and ?d = "data img"
  let ?t = "pixelAt ?d ?w (x, y)"
  assume a: "length ?d = 4 * ?w * ?h \<and> inb ?w ?h (x, y)
   \<and> fabricRef p = Some c \<and> ?t \<noteq> hexToRgba hex"
  then have wf: "length ?d = 4 * ?w * ?h" and sb: "inb ?w ?h (x, y)"
    and c: "fabricRef p = Some c" and ne: "?t \<noteq> hexToRgba hex" by auto
  from fill_result [OF wf sb near_refl, of "hexToRgba hex"] obtain t where
    t: "fillLoop ?w ?h ?t (hexToRgba hex) (fillStart img x y) = Some t"
    and l: "length (pixels t) = length ?d"
    and r: "\<forall>q. inb ?w ?h q \<longrightarrow> pixelAt (pixels t) ?w q =
              (if q \<in> region ?w ?h ?d ?t (x, y) then hexToRgba hex else pixelAt ?d ?w q)"
    by blast
  let ?img = "img\<lparr>data := pixels t\<rparr>"
  let ?s = "(content c)\<lparr>backgroundColor := None, backgroundImage := Some ?img\<rparr>"
  have f: "floodFillAt p img x y hex = Some (commit ?s p)"
    using c sb ne t by (simp add: floodFillAt_cases)
  have sh: "shown (commit ?s p) = Some ?s" using c by (rule commit_shown)
  show "\<exists>p' img'. floodFillAt p img x y hex = Some p'
      \<and> shown p' = Some ((content c)\<lparr>backgroundColor := None, backgroundImage := Some img'\<rparr>)
      \<and> width img' = ?w \<and> height img' = ?h
      \<and> length (data img') = length ?d
      \<and> (\<forall>q. inb ?w ?h q \<longrightarrow> pixelAt (data img') ?w q =
              (if q \<in> region ?w ?h ?d ?t (x, y) then hexToRgba hex else pixelAt ?d ?w q))"
    using f sh l r by (intro exI [of _ "commit ?s p"] exI [of _ ?img]) simp
qed

theorem flood_fill_region_witness:
  "\<exists>p' img'. floodFillAt mounted threePixels 0 0 ''#ff0000'' = Some p'
     \<and> shown p' = Some (blank\<lparr>backgroundColor := None, backgroundImage := Some img'\<rparr>)
     \<and> pixelAt (data img') 3 (0, 0) = (255, 0, 0, 255)
     \<and> pixelAt (data img') 3 (1, 0) = (255, 0, 0, 255)
     \<and> pixelAt (data img') 3 (2, 0) = (0, 0, 0, 255)"
proof -
  let ?d = "data threePixels"
  let ?R = "region 3 1 ?d (255, 255, 255, 255) (0, 0)"
  have wh: "width threePixels = 3" "height threePixels = 1" by (simp_all add: threePixels_def)
  have p0: "pixelAt ?d 3 (0, 0) = (255, 255, 255, 255)"
    and p1: "pixelAt ?d 3 (1, 0) = (250, 250, 250, 255)"
    and p2: "pixelAt ?d 3 (2, 0) = (0, 0, 0, 255)"
    by (simp_all add: pixelAt_def threePixels_def idx_def Let_def)
  have b: "inb 3 1 (0, 0)" "inb 3 1 (1, 0)" "inb 3 1 (2, 0)" by (simp_all add: inb_def)
  have r0: "(0, 0) \<in> ?R" using b(1) p0 by (intro region.seed) (simp_all add: near_def)
  have r1: "(1, 0) \<in> ?R"
    by (rule region.step [OF r0]) (simp_all add: adjacent_def inb_def p1 near_def)
  have r2: "(2, 0) \<notin> ?R" using region_near [of "(2, 0)" 3 1 ?d "(255, 255, 255, 255)" "(0, 0)"] p2
    by (auto simp: near_def)
  have a: "length ?d = 4 * width threePixels * height threePixels
     \<and> inb (width threePixels) (height threePixels) (0, 0)
     \<and> fabricRef mounted = Some newCanvas
     \<and> pixelAt ?d (width threePixels) (0, 0) \<noteq> hexToRgba ''#ff0000''"
    using b(1) p0 by (simp add: wh red mounted_simps) (simp add: threePixels_def)
  from flood_fill_region [of threePixels 0 0 mounted newCanvas "''#ff0000''"] a
  obtain p' img' where
    f: "floodFillAt mounted threePixels 0 0 ''#ff0000'' = Some p'"
    and s: "shown p' = Some ((content newCanvas)\<lparr>backgroundColor := None, backgroundImage := Some img'\<rparr>)"
    and px: "\<forall>q. inb 3 1 q \<longrightarrow> pixelAt (data img') 3 q =
              (if q \<in> region 3 1 ?d (pixelAt ?d 3 (0, 0)) (0, 0)
               then hexToRgba ''#ff0000'' else pixelAt ?d 3 q)"
    unfolding wh by blast
  have "pixelAt (data img') 3 (0, 0) = (255, 0, 0, 255)"
    using px b(1) r0 p0 red by simp
  moreover have "pixelAt (data img') 3 (1, 0) = (255, 0, 0, 255)"
    using px b(2) r1 p0 red by simp
  moreover have "pixelAt (data img') 3 (2, 0) = (0, 0, 0, 255)"
    using px b(3) r2 p0 p2 by simp
  ultimately show ?thesis using f s by (auto simp: newCanvas_def)
qed

subsection \<open>When the fill does nothing\<close>

lemma twoPixels_loop:
  "fillLoop 2 1 (250, 0, 0, 255) (255, 0, 0, 255) (fillStart twoPixels 0 0)
     = Some \<lparr>stack = [], pixels = [255, 0, 0, 255, 10, 10, 10, 255], visited = [True, False]\<rparr>"
  by (simp add: fillLoop_def while_option_unfold fillStart_def twoPixels_def fillStep_def
      matches_def tol_def Let_def numeral_2_eq_2)

lemma white: "hexToRgba ''#ffffff'' = (255, 255, 255, 255)"
  by (simp add: hexToRgba_def trim_def isWhiteSpace_def parseInt16_def hexDigit_def
      toInt32_def Let_def)

text \<open>
  C5, as stated, fails for a seed whose colour is within tolerance of the fill
  colour without being equal to it: the test before the loop compares the
  channels for equality, so the fill runs, replaces the background and pushes a
  snapshot.
\<close>

theorem fill_noop_counterexample:
  "near (hexToRgba ''#ff0000'') (pixelAt (data twoPixels) 2 (0, 0))
   \<and> map_option undo (floodFillAt mounted twoPixels 0 0 ''#ff0000'') = Some [blank, filledTwo]
   \<and> map_option shown (floodFillAt mounted twoPixels 0 0 ''#ff0000'') = Some (Some filledTwo)
   \<and> undo mounted = [blank] \<and> shown mounted = Some blank \<and> filledTwo \<noteq> blank"
proof -
  have t: "pixelAt (data twoPixels) 2 (0, 0) = (250, 0, 0, 255)"
    by (simp add: pixelAt_def twoPixels_def idx_def Let_def)
  have wh: "width twoPixels = 2" "height twoPixels = 1" by (simp_all add: twoPixels_def)
  have s: "(content newCanvas)\<lparr>backgroundColor := None,
              backgroundImage := Some (twoPixels\<lparr>data := [255, 0, 0, 255, 10, 10, 10, 255]\<rparr>)\<rparr>
           = filledTwo"
    by (simp add: newCanvas_def blank_def filledTwo_def twoPixels_def)
  have f: "floodFillAt mounted twoPixels 0 0 ''#ff0000'' = Some (commit filledTwo mounted)"
    using t twoPixels_loop s by (simp add: floodFillAt_cases mounted_simps wh red inb_def)
  have c: "undo (commit filledTwo mounted) = [blank, filledTwo]"
          "shown (commit filledTwo mounted) = Some filledTwo"
    using commit_stacks [of mounted newCanvas filledTwo] by (simp_all add: mounted_simps)
  show ?thesis
    using t f c by (simp add: red near_def mounted_simps shown_def newCanvas_def)
      (simp add: filledTwo_def blank_def)
qed

text \<open>
  C5, amended. The fill returns the page as it is, history included, when there is
  no canvas or the seed lies outside the buffer, and when the colour sampled at
  the seed is exactly the fill colour; in particular on a buffer that has the
  fill colour everywhere.
\<close>

theorem fill_noop:
  "(fabricRef p = None \<or> x < 0 \<or> y < 0 \<or> int (width img) \<le> x \<or> int (height img) \<le> y
      \<longrightarrow> floodFillAt p img x y hex = Some p)
   \<and> (inb (width img) (height img) (x, y)
       \<and> pixelAt (data img) (width img) (x, y) = hexToRgba hex
      \<longrightarrow> floodFillAt p img x y hex = Some p)
   \<and> ((\<forall>q. inb (width img) (height img) q \<longrightarrow> pixelAt (data img) (width img) q = hexToRgba hex)
      \<longrightarrow> floodFillAt p img x y hex = Some p)"
  by (auto simp: floodFillAt_cases inb_def split: option.splits)

theorem fill_noop_witness:
  "floodFillAt mounted whitePixel 1 0 ''#ff0000'' = Some mounted
   \<and> floodFillAt mounted whitePixel 0 (- 1) ''#ff0000'' = Some mounted
   \<and> floodFillAt mounted whitePixel 0 0 ''#ffffff'' = Some mounted
   \<and> undo mounted = [blank]"
proof -
  have wh: "width whitePixel = 1" "height whitePixel = 1" by (simp_all add: whitePixel_def)
  have b: "inb (width whitePixel) (height whitePixel) (0, 0)
           \<and> pixelAt (data whitePixel) (width whitePixel) (0, 0) = hexToRgba ''#ffffff''"
    by (simp add: inb_def whitePixel_def pixelAt_def idx_def white)
  have o1: "fabricRef mounted = None \<or> (1 :: int) < 0 \<or> (0 :: int) < 0
            \<or> int (width whitePixel) \<le> 1 \<or> int (height whitePixel) \<le> 0"
    by (simp add: wh)
  have o2: "fabricRef mounted = None \<or> (0 :: int) < 0 \<or> (- 1 :: int) < 0
            \<or> int (width whitePixel) \<le> 0 \<or> int (height whitePixel) \<le> - 1"
    by simp
  show ?thesis
    using fill_noop [of mounted 1 0 whitePixel "''#ff0000''"]
          fill_noop [of mounted 0 "- 1" whitePixel "''#ff0000''"]
          fill_noop [of mounted 0 0 whitePixel "''#ffffff''"] o1 o2 b
    by (simp add: mounted_simps wh)
qed

subsection \<open>The eraser's colour\<close>

lemma whitePixel_loop:
  "fillLoop 1 1 (255, 255, 255, 255) (255, 0, 0, 255) (fillStart whitePixel 0 0)
     = Some \<lparr>stack = [], pixels = [255, 0, 0, 255], visited = [True]\<rparr>"
  by (simp add: fillLoop_def while_option_unfold fillStart_def whitePixel_def fillStep_def
      matches_def tol_def Let_def)

lemma redPage_simps:
  "fabricRef redPage = Some (newCanvas\<lparr>content := blank\<lparr>backgroundColor := None,
       backgroundImage := Some (whitePixel\<lparr>data := [255, 0, 0, 255]\<rparr>)\<rparr>\<rparr>)"
  by (simp add: redPage_def commit_def push_def toJSON_def Let_def mounted_simps)

text \<open>
  C9, as stated, fails once a fill has replaced the background: on the one-pixel
  canvas filled red, the background colour is \<open>null\<close>, the background image is
  red, and a stroke drawn with the eraser is white.
\<close>

theorem eraser_colour_counterexample:
  "floodFillAt mounted whitePixel 0 0 ''#ff0000'' = Some redPage
   \<and> shown erased = Some \<lparr>backgroundColor = None,
        backgroundImage = Some \<lparr>width = 1, height = 1, data = [255, 0, 0, 255]\<rparr>,
        objects = [\<lparr>ppoints = [(0, 0), (0, 0)], pstroke = ''#ffffff'', pstrokeWidth = 12\<rparr>]\<rparr>
   \<and> hexToRgba ''#ffffff'' \<noteq> (255, 0, 0, 255)"
proof -
  have t: "pixelAt (data whitePixel) 1 (0, 0) = (255, 255, 255, 255)"
    by (simp add: pixelAt_def whitePixel_def idx_def Let_def)
  have wh: "width whitePixel = 1" "height whitePixel = 1" by (simp_all add: whitePixel_def)
  have f: "floodFillAt mounted whitePixel 0 0 ''#ff0000'' = Some redPage"
    using t whitePixel_loop
    by (simp add: floodFillAt_cases mounted_simps wh red inb_def redPage_def newCanvas_def)
  have e: "shown erased = Some \<lparr>backgroundColor = None,
        backgroundImage = Some \<lparr>width = 1, height = 1, data = [255, 0, 0, 255]\<rparr>,
        objects = [\<lparr>ppoints = [(0, 0), (0, 0)], pstroke = ''#ffffff'', pstrokeWidth = 12\<rparr>]\<rparr>"
    by (simp add: erased_def pathCreated_def applyBrush_def redPage_simps Let_def commit_def
        push_def toJSON_def shown_def newCanvas_def blank_def whitePixel_def)
  show ?thesis using f e by (simp add: white)
qed

text \<open>
  C9, amended. With the eraser active every stroke drawn has the colour
  \<open>'#ffffff'\<close>, whatever the canvas shows; that is the background colour of the
  blank scene the page starts with.
\<close>

theorem eraser_colour:
  "(fabricRef p = Some c \<longrightarrow>
      shown (pathCreated pts (applyBrush Eraser color bsz p))
        = Some ((content c)\<lparr>objects := objects (content c)
             @ [\<lparr>ppoints = pts, pstroke = ''#ffffff'',
                 pstrokeWidth = (if bsz = 0 then 3 else bsz)\<rparr>]\<rparr>))
   \<and> backgroundColor blank = Some ''#ffffff''
   \<and> shown mounted = Some blank"
  by (auto simp: pathCreated_def applyBrush_def Let_def commit_def push_def toJSON_def shown_def
      blank_def mounted_simps newCanvas_def)

theorem eraser_colour_witness:
  "shown (pathCreated [(3, 4), (5, 6)] (applyBrush Eraser ''#00ff00'' 0 mounted))
     = Some \<lparr>backgroundColor = Some ''#ffffff'', backgroundImage = None,
             objects = [\<lparr>ppoints = [(3, 4), (5, 6)], pstroke = ''#ffffff'', pstrokeWidth = 3\<rparr>]\<rparr>"
  using eraser_colour [of mounted newCanvas "[(3, 4), (5, 6)]" "''#00ff00''" 0]
  by (simp add: mounted_simps newCanvas_def blank_def)

end
